theory Spec2Isabelle
  imports Main "HOL-Library.Multiset"
begin

section \<open>Data model\<close>

text \<open>
  Go's \<open>error\<close> values that the writer can meet. A value that passes the type assertion
  \<open>err.(awserr.Error)\<close> is an \<open>AwsError code message\<close>, with what its \<open>Code()\<close> and
  \<open>Message()\<close> return; any other error
  is an \<open>OtherError\<close>. \<open>ErrClosedPipe\<close> and \<open>EOF\<close> are the two sentinels of package \<open>io\<close>
  that the writer uses.
\<close>

datatype go_error =
    AwsError string string
  | OtherError string
  | RejectedLogEventsInfoError
  | ErrClosedPipe
  | EOF

text \<open>\<open>cloudwatchlogs.InputLogEvent\<close>: a message and a timestamp in milliseconds.\<close>

record InputLogEvent =
  Message :: string
  Timestamp :: int

text \<open>
  \<open>cloudwatchlogs.PutLogEventsInput\<close> and \<open>PutLogEventsOutput\<close>; a nil \<open>*string\<close> is \<open>None\<close>, and
  \<open>RejectedLogEventsInfo\<close> says whether that pointer of the response is not nil.
\<close>

record PutLogEventsInput =
  LogEvents :: "InputLogEvent list"
  LogGroupName :: string
  LogStreamName :: string
  SequenceToken :: "string option"

record PutLogEventsOutput =
  NextSequenceToken :: "string option"
  RejectedLogEventsInfo :: bool

text \<open>
  \<open>cloudwatchlogs.DescribeLogStreamsInput\<close> and one \<open>LogStream\<close> of its output; the service
  names every stream it returns, so \<open>StreamName\<close> is never nil.
\<close>

record DescribeLogStreamsInput =
  DescribeGroupName :: string
  LogStreamNamePrefix :: string

record LogStream =
  StreamName :: string
  UploadSequenceToken :: "string option"

text \<open>A call that reached the remote service, in the order the calls were made.\<close>

datatype call =
    Put PutLogEventsInput
  | Describe DescribeLogStreamsInput

text \<open>
  The collaborators of the writer: the client (\<open>cloudwatchlogsiface.CloudWatchLogsAPI\<close>) and
  the package variable \<open>now\<close>. The answer of the client may depend on every call made before
  and on the request; since the calls made before grow with each call, every run of a real
  service is the run of such a function. \<open>now\<close> is read once per event; its \<open>k\<close>-th reading is
  \<open>now k\<close>, in nanoseconds since the epoch (\<open>UnixNano\<close>).
\<close>

record env =
  PutLogEvents :: "call list \<Rightarrow> PutLogEventsInput \<Rightarrow> go_error + PutLogEventsOutput"
  DescribeLogStreams :: "call list \<Rightarrow> DescribeLogStreamsInput \<Rightarrow> go_error + LogStream list"
  now :: "nat \<Rightarrow> int"

text \<open>
  The \<open>Writer\<close> struct. \<open>events\<close> is the slice inside \<open>eventsBuffer\<close>; the client is passed as
  the \<open>env\<close>, the ticker is the schedule of \<open>start\<close> below, and the two mutexes have no
  content in a sequential run. \<open>group\<close> and \<open>stream\<close> are never nil (\<open>aws.String\<close>).
\<close>

record Writer =
  group :: string
  stream :: string
  sequenceToken :: "string option"
  closed :: bool
  err :: "go_error option"
  events :: "InputLogEvent list"

text \<open>
  The writer together with what it has done to its collaborators: the calls the client has
  received so far and the number of readings of \<open>now\<close> taken so far.
\<close>

record world = Writer +
  trace :: "call list"
  nowCalls :: nat

section \<open>Constants\<close>

definition perEventBytes :: nat where
  "perEventBytes = 26"

definition maximumBytesPerPut :: nat where
  "maximumBytesPerPut = 1048576"

definition maximumLogEventsPerPut :: nat where
  "maximumLogEventsPerPut = 10000"

definition maximumBytesPerEvent :: nat where
  "maximumBytesPerEvent = 262144 - perEventBytes"

definition dataAlreadyAcceptedCode :: string where
  "dataAlreadyAcceptedCode = ''DataAlreadyAcceptedException''"

definition invalidSequenceTokenCode :: string where
  "invalidSequenceTokenCode = ''InvalidSequenceTokenException''"

section \<open>Library functions the writer calls\<close>

text \<open>
  \<open>bufio.Reader.ReadBytes(delim)\<close> over a \<open>bytes.Reader\<close>: the bytes up to and including the first
  \<open>delim\<close>, or, when there is none, all the remaining bytes together with \<open>io.EOF\<close>. The third
  component is what is left in the reader.
\<close>

definition ReadBytes :: "char \<Rightarrow> string \<Rightarrow> string \<times> go_error option \<times> string" where
  "ReadBytes delim r =
     (case dropWhile (\<lambda>c. c \<noteq> delim) r of
        [] \<Rightarrow> (r, Some EOF, [])
      | d # rest \<Rightarrow> (takeWhile (\<lambda>c. c \<noteq> delim) r @ [d], None, rest))"

text \<open>
  \<open>strings.Split(s, sep)\<close> for a separator of one byte, as both call sites use it (\<open>" "\<close>):
  the substrings between the separators; never an empty slice.
\<close>

fun split_from :: "char \<Rightarrow> string \<Rightarrow> string \<Rightarrow> string list" where
  "split_from sep cur [] = [cur]"
| "split_from sep cur (c # cs) =
     (if c = sep then cur # split_from sep [] cs else split_from sep (cur @ [c]) cs)"

definition Split :: "string \<Rightarrow> char \<Rightarrow> string list" where
  "Split s sep = split_from sep [] s"

text \<open>
  Go's integer division truncates towards zero. The only division of the writer is that of
  an \<open>int64\<close> reading of the clock by one million, which cannot overflow.
\<close>

definition go_quot :: "int \<Rightarrow> int \<Rightarrow> int" where
  "go_quot a b = sgn a * sgn b * (\<bar>a\<bar> div \<bar>b\<bar>)"

section \<open>The events buffer\<close>

definition add :: "InputLogEvent \<Rightarrow> world \<Rightarrow> world" where
  "add event w = w\<lparr>events := events w @ [event]\<rparr>"

definition drain :: "world \<Rightarrow> InputLogEvent list \<times> world" where
  "drain w = (events w, w\<lparr>events := []\<rparr>)"

section \<open>Writing\<close>

text \<open>One pass of the body of the loop of \<open>buffer\<close> after a non-empty read: the event is added
  with the current reading of \<open>now\<close>.\<close>

definition add_line :: "env \<Rightarrow> string \<Rightarrow> world \<Rightarrow> world" where
  "add_line E b w =
     (add \<lparr>Message = b, Timestamp = go_quot (now E (nowCalls w)) 1000000\<rparr> w)
       \<lparr>nowCalls := Suc (nowCalls w)\<rparr>"

text \<open>
  The loop of \<open>buffer\<close>: \<open>r\<close> is what the reader still holds, \<open>n\<close> the count so far. A read
  that ends with \<open>io.EOF\<close> is the last one; any other error breaks out of the loop; an empty
  read adds nothing.
\<close>

function buffer_loop :: "env \<Rightarrow> string \<Rightarrow> nat \<Rightarrow> world \<Rightarrow> nat \<times> world" where
  "buffer_loop E r n w =
     (case ReadBytes (CHR 0x0A) r of
        (b, Some e, r') \<Rightarrow>
          (if e = EOF
           then (if length b = 0 then (n, w) else (n + length b, add_line E b w))
           else (n, w))
      | (b, None, r') \<Rightarrow>
          (if length b = 0 then buffer_loop E r' n w
           else buffer_loop E r' (n + length b) (add_line E b w)))"
  by pat_completeness auto

lemma ReadBytes_rest_shorter:
  "ReadBytes delim r = (b, None, r') \<Longrightarrow> length r' < length r"
proof -
  assume h: "ReadBytes delim r = (b, None, r')"
  then obtain d where d: "dropWhile (\<lambda>c. c \<noteq> delim) r = d # r'"
    by (auto simp: ReadBytes_def split: list.splits)
  have "length (dropWhile (\<lambda>c. c \<noteq> delim) r) \<le> length r"
    by (rule length_dropWhile_le)
  with d show ?thesis by simp
qed

termination buffer_loop
  by (relation "measure (\<lambda>(E, r, n, w). length r)")
     (auto dest: ReadBytes_rest_shorter [OF sym])

definition buffer :: "env \<Rightarrow> string \<Rightarrow> world \<Rightarrow> nat \<times> go_error option \<times> world" where
  "buffer E b w = (case buffer_loop E b 0 w of (n, w') \<Rightarrow> (n, None, w'))"

definition Write :: "env \<Rightarrow> string \<Rightarrow> world \<Rightarrow> nat \<times> go_error option \<times> world" where
  "Write E b w =
     (if closed w then (0, Some ErrClosedPipe, w)
      else case err w of
             Some e \<Rightarrow> (0, Some e, w)
           | None \<Rightarrow> buffer E b w)"

section \<open>Flushing\<close>

text \<open>
  \<open>putLogEvents\<close>: one call of the client. The named results start as nil, so a failed call
  returns a nil token with the error. The calls of \<open>FallbackLogger\<close> change nothing in the
  writer and are left out.
\<close>

definition putLogEvents ::
  "env \<Rightarrow> InputLogEvent list \<Rightarrow> string option \<Rightarrow> world \<Rightarrow> string option \<times> go_error option \<times> world"
where
  "putLogEvents E evs tok w =
     (let inp = \<lparr>LogEvents = evs, LogGroupName = group w, LogStreamName = stream w,
                  SequenceToken = tok\<rparr>;
          w' = w\<lparr>trace := trace w @ [Put inp]\<rparr>
      in case PutLogEvents E (trace w) inp of
           Inl e \<Rightarrow> (None, Some e, w')
         | Inr resp \<Rightarrow> (NextSequenceToken resp, None, w'))"

text \<open>
  \<open>flush\<close> of the writer with the conflict handling. The first block
  looks at the error of the first call: a \<open>DataAlreadyAcceptedException\<close> is turned into a
  success whose token is the last word of the message, an \<open>InvalidSequenceTokenException\<close>
  makes one more call with the last word of the message as the token. The second block
  stores the error or the token.
\<close>

definition flush :: "env \<Rightarrow> InputLogEvent list \<Rightarrow> world \<Rightarrow> world" where
  "flush E evs w =
     (case putLogEvents E evs (sequenceToken w) w of
        (nextSequenceToken, err1, w1) \<Rightarrow>
          (case (case err1 of
                   None \<Rightarrow> (nextSequenceToken, err1, w1)
                 | Some (AwsError code msg) \<Rightarrow>
                     if code = dataAlreadyAcceptedCode then
                       (let parts = Split msg (CHR '' '')
                        in (Some (parts ! (length parts - 1)), None, w1))
                     else if code = invalidSequenceTokenCode then
                       (let parts = Split msg (CHR '' '');
                            token = parts ! (length parts - 1)
                        in putLogEvents E evs (Some token) w1)
                     else (nextSequenceToken, err1, w1)
                 | Some e \<Rightarrow> (nextSequenceToken, err1, w1))
           of (nextSequenceToken', err2, w2) \<Rightarrow>
             (case err2 of
                Some e \<Rightarrow> w2\<lparr>err := Some e\<rparr>
              | None \<Rightarrow> w2\<lparr>sequenceToken := nextSequenceToken'\<rparr>)))"

text \<open>\<open>Flush\<close> has no result: it drains the buffer and, when there is something, flushes it.\<close>

definition Flush :: "env \<Rightarrow> world \<Rightarrow> world" where
  "Flush E w =
     (case drain w of
        (evs, w1) \<Rightarrow> if length evs = 0 then w1 else flush E evs w1)"

definition Close :: "env \<Rightarrow> world \<Rightarrow> world" where
  "Close E w = Flush E (w\<lparr>closed := True\<rparr>)"

text \<open>\<open>NewWriter\<close>: the fields that are not given are zero. The goroutine it starts is \<open>start\<close>.\<close>

definition NewWriter :: "string \<Rightarrow> string \<Rightarrow> world" where
  "NewWriter g s =
     \<lparr>group = g, stream = s, sequenceToken = None, closed = False, err = None, events = [],
      trace = [], nowCalls = 0\<rparr>"

section \<open>The callers and the background loop\<close>

text \<open>What the callers of a writer can do to it, and a run of such calls in order.\<close>

datatype op = OpWrite string | OpFlush | OpClose

definition apply_op :: "env \<Rightarrow> op \<Rightarrow> world \<Rightarrow> world" where
  "apply_op E x w =
     (case x of
        OpWrite b \<Rightarrow> snd (snd (Write E b w))
      | OpFlush \<Rightarrow> Flush E w
      | OpClose \<Rightarrow> Close E w)"

fun run_ops :: "env \<Rightarrow> op list \<Rightarrow> world \<Rightarrow> world" where
  "run_ops E [] w = w"
| "run_ops E (x # xs) w = run_ops E xs (apply_op E x w)"

text \<open>
  \<open>start\<close>: the loop of the goroutine. A schedule is the list of the ticks that the ticker
  delivers, each with the calls that the callers make while the loop waits for it. At the
  end of the schedule the loop has either returned or waits for a tick that has not come.
\<close>

datatype loop_status = Exited "go_error option" | Waiting

fun start :: "env \<Rightarrow> op list list \<Rightarrow> world \<Rightarrow> loop_status \<times> world" where
  "start E [] w = (if closed w then (Exited None, w) else (Waiting, w))"
| "start E (ops # ticks) w =
     (if closed w then (Exited None, w)
      else start E ticks (Flush E (run_ops E ops w)))"

section \<open>The writer without the conflict handling\<close>

text \<open>
  The source holds the writer twice. The functions above are those of the writer that
  declares the limits and the two error codes. The other writer has the same \<open>Writer\<close>,
  \<open>Write\<close>, \<open>buffer\<close> and \<open>eventsBuffer\<close>, and its own \<open>flush\<close>, \<open>Flush\<close>, \<open>Close\<close> and \<open>start\<close>,
  which return an error; they carry the suffix \<open>_v1\<close> here. \<open>getSequenceToken\<close> belongs to
  that writer only.
\<close>

text \<open>
  \<open>getSequenceToken\<close>: the named result starts as nil and is assigned only inside the loop
  over the streams of a successful lookup, which is made only when no token is held.
\<close>

definition getSequenceToken :: "env \<Rightarrow> world \<Rightarrow> string option \<times> world" where
  "getSequenceToken E w =
     (if sequenceToken w = None then
        (let inp = \<lparr>DescribeGroupName = group w, LogStreamNamePrefix = stream w\<rparr>;
             w' = w\<lparr>trace := trace w @ [Describe inp]\<rparr>
         in case DescribeLogStreams E (trace w) inp of
              Inl e \<Rightarrow> (None, w')
            | Inr streams \<Rightarrow>
                (case find (\<lambda>s. StreamName s = stream w) streams of
                   None \<Rightarrow> (None, w')
                 | Some s \<Rightarrow> (UploadSequenceToken s, w')))
      else (None, w))"

definition flush_v1 :: "env \<Rightarrow> InputLogEvent list \<Rightarrow> world \<Rightarrow> go_error option \<times> world" where
  "flush_v1 E evs w =
     (case getSequenceToken E w of
        (tok, w1) \<Rightarrow>
          (let inp = \<lparr>LogEvents = evs, LogGroupName = group w1, LogStreamName = stream w1,
                       SequenceToken = tok\<rparr>;
               w2 = w1\<lparr>trace := trace w1 @ [Put inp]\<rparr>
           in case PutLogEvents E (trace w1) inp of
                Inl e \<Rightarrow> (Some e, w2)
              | Inr resp \<Rightarrow>
                  if RejectedLogEventsInfo resp
                  then (Some RejectedLogEventsInfoError, w2\<lparr>err := Some RejectedLogEventsInfoError\<rparr>)
                  else (None, w2\<lparr>sequenceToken := NextSequenceToken resp\<rparr>)))"

definition Flush_v1 :: "env \<Rightarrow> world \<Rightarrow> go_error option \<times> world" where
  "Flush_v1 E w =
     (case drain w of
        (evs, w1) \<Rightarrow>
          if length evs = 0 then (None, w1)
          else (case flush_v1 E evs w1 of (e, w2) \<Rightarrow> (e, w2\<lparr>err := e\<rparr>)))"

definition Close_v1 :: "env \<Rightarrow> world \<Rightarrow> go_error option \<times> world" where
  "Close_v1 E w = Flush_v1 E (w\<lparr>closed := True\<rparr>)"

definition apply_op_v1 :: "env \<Rightarrow> op \<Rightarrow> world \<Rightarrow> world" where
  "apply_op_v1 E x w =
     (case x of
        OpWrite b \<Rightarrow> snd (snd (Write E b w))
      | OpFlush \<Rightarrow> snd (Flush_v1 E w)
      | OpClose \<Rightarrow> snd (Close_v1 E w))"

fun run_ops_v1 :: "env \<Rightarrow> op list \<Rightarrow> world \<Rightarrow> world" where
  "run_ops_v1 E [] w = w"
| "run_ops_v1 E (x # xs) w = run_ops_v1 E xs (apply_op_v1 E x w)"

fun start_v1 :: "env \<Rightarrow> op list list \<Rightarrow> world \<Rightarrow> loop_status \<times> world" where
  "start_v1 E [] w = (if closed w then (Exited None, w) else (Waiting, w))"
| "start_v1 E (ops # ticks) w =
     (if closed w then (Exited None, w)
      else (case Flush_v1 E (run_ops_v1 E ops w) of
              (Some e, w') \<Rightarrow> (Exited (Some e), w')
            | (None, w') \<Rightarrow> start_v1 E ticks w'))"

section \<open>Conflicts and test doubles\<close>

text \<open>The two error codes that \<open>flush\<close> looks for in the error of the first call.\<close>

definition conflict :: "go_error \<Rightarrow> bool" where
  "conflict e =
     (case e of
        AwsError code msg \<Rightarrow> code = dataAlreadyAcceptedCode \<or> code = invalidSequenceTokenCode
      | _ \<Rightarrow> False)"

text \<open>
  Clients for the concrete runs below. \<open>stub_accepting\<close> accepts every batch and knows no
  stream; its clock advances by one millisecond per reading.
\<close>

definition stub_accepting :: env where
  "stub_accepting =
     \<lparr>PutLogEvents = (\<lambda>h i. Inr \<lparr>NextSequenceToken = Some ''T1'', RejectedLogEventsInfo = False\<rparr>),
      DescribeLogStreams = (\<lambda>h i. Inl (OtherError ''ResourceNotFoundException'')),
      now = (\<lambda>k. 1000000 * int k)\<rparr>"

text \<open>
  \<open>stub_stale_once\<close> rejects the first call as a stale token and accepts the later ones,
  \<open>stub_already_accepted\<close> answers that the batch is already accepted, and for \<open>stub_failing\<close>
  every call fails with an error that is not an \<open>awserr.Error\<close>.
\<close>

definition stub_stale_once :: env where
  "stub_stale_once =
     \<lparr>PutLogEvents = (\<lambda>h i.
        if h = [] then Inl (AwsError invalidSequenceTokenCode
                         ''The given sequenceToken is invalid. The next expected sequenceToken is: T42'')
        else Inr \<lparr>NextSequenceToken = Some ''T43'', RejectedLogEventsInfo = False\<rparr>),
      DescribeLogStreams = (\<lambda>h i. Inl (OtherError ''ResourceNotFoundException'')),
      now = (\<lambda>k. 1000000 * int k)\<rparr>"

definition stub_already_accepted :: env where
  "stub_already_accepted =
     \<lparr>PutLogEvents = (\<lambda>h i. Inl (AwsError dataAlreadyAcceptedCode
        ''The given batch of log events has already been accepted. The next batch can be sent with sequenceToken: T7'')),
      DescribeLogStreams = (\<lambda>h i. Inl (OtherError ''ResourceNotFoundException'')),
      now = (\<lambda>k. 1000000 * int k)\<rparr>"

definition stub_failing :: env where
  "stub_failing =
     \<lparr>PutLogEvents = (\<lambda>h i. Inl (OtherError ''connection reset'')),
      DescribeLogStreams = (\<lambda>h i. Inl (OtherError ''connection reset'')),
      now = (\<lambda>k. 1000000 * int k)\<rparr>"

text \<open>
  \<open>stub_stale_then_accepted\<close> and \<open>stub_stale_then_failing\<close> reject the first call as a stale
  token; the first then answers that the batch is already accepted, the second fails with an
  error that is not an \<open>awserr.Error\<close>.
\<close>

definition stub_stale_then_accepted :: env where
  "stub_stale_then_accepted =
     \<lparr>PutLogEvents = (\<lambda>h i.
        if h = [] then Inl (AwsError invalidSequenceTokenCode
                         ''The given sequenceToken is invalid. The next expected sequenceToken is: T42'')
        else Inl (AwsError dataAlreadyAcceptedCode
                         ''The given batch of log events has already been accepted. The next batch can be sent with sequenceToken: T7'')),
      DescribeLogStreams = (\<lambda>h i. Inl (OtherError ''ResourceNotFoundException'')),
      now = (\<lambda>k. 1000000 * int k)\<rparr>"

definition stub_stale_then_failing :: env where
  "stub_stale_then_failing =
     \<lparr>PutLogEvents = (\<lambda>h i.
        if h = [] then Inl (AwsError invalidSequenceTokenCode
                         ''The given sequenceToken is invalid. The next expected sequenceToken is: T42'')
        else Inl (OtherError ''connection reset'')),
      DescribeLogStreams = (\<lambda>h i. Inl (OtherError ''ResourceNotFoundException'')),
      now = (\<lambda>k. 1000000 * int k)\<rparr>"

section \<open>Reading lines\<close>

declare buffer_loop.simps [simp del]

lemma ReadBytes_Nil: "ReadBytes d [] = ([], Some EOF, [])"
  by (simp add: ReadBytes_def)

lemma ReadBytes_no_delim: "d \<notin> set r \<Longrightarrow> ReadBytes d r = (r, Some EOF, [])"
proof -
  assume "d \<notin> set r"
  then have eq: "dropWhile (\<lambda>c. c \<noteq> d) r = []"
    by (auto simp: dropWhile_eq_Nil_conv)
  show ?thesis unfolding ReadBytes_def eq by simp
qed

lemma ReadBytes_delim:
  "d \<notin> set pre \<Longrightarrow> ReadBytes d (pre @ d # rest) = (pre @ [d], None, rest)"
proof -
  assume h: "d \<notin> set pre"
  then have p: "\<And>x. x \<in> set pre \<Longrightarrow> x \<noteq> d" by auto
  have dr: "dropWhile (\<lambda>c. c \<noteq> d) (pre @ d # rest) = d # rest"
    using p by simp
  have tk: "takeWhile (\<lambda>c. c \<noteq> d) (pre @ d # rest) = pre"
    using p by simp
  show ?thesis unfolding ReadBytes_def dr tk by simp
qed

lemma buffer_loop_Nil: "buffer_loop E [] n w = (n, w)"
  by (simp add: buffer_loop.simps ReadBytes_Nil)

lemma buffer_loop_no_nl:
  "CHR 0x0A \<notin> set r \<Longrightarrow> r \<noteq> [] \<Longrightarrow> buffer_loop E r n w = (n + length r, add_line E r w)"
  by (subst buffer_loop.simps) (simp add: ReadBytes_no_delim)

lemma buffer_loop_line:
  "CHR 0x0A \<notin> set pre \<Longrightarrow>
   buffer_loop E (pre @ CHR 0x0A # rest) n w =
   buffer_loop E rest (n + length (pre @ [CHR 0x0A])) (add_line E (pre @ [CHR 0x0A]) w)"
  by (subst buffer_loop.simps) (simp add: ReadBytes_delim)

lemma split_first_nl:
  "CHR 0x0A \<in> set r \<Longrightarrow> \<exists>pre rest. r = pre @ CHR 0x0A # rest \<and> CHR 0x0A \<notin> set pre"
  by (meson split_list_first)

lemma buffer_loop_count: "fst (buffer_loop E r n w) = n + length r"
proof (induction r arbitrary: n w rule: length_induct)
  case (1 r)
  show ?case
  proof (cases "CHR 0x0A \<in> set r")
    case False
    then show ?thesis by (cases "r = []") (simp_all add: buffer_loop_Nil buffer_loop_no_nl)
  next
    case True
    then obtain pre rest where r: "r = pre @ CHR 0x0A # rest" "CHR 0x0A \<notin> set pre"
      using split_first_nl by blast
    then have "length rest < length r" by simp
    with 1 have "fst (buffer_loop E rest (n + length (pre @ [CHR 0x0A])) (add_line E (pre @ [CHR 0x0A]) w))
      = n + length (pre @ [CHR 0x0A]) + length rest" by blast
    with r show ?thesis by (simp add: buffer_loop_line)
  qed
qed

lemma buffer_loop_cases [consumes 0, case_names Nil Last Line]:
  assumes "r = [] \<Longrightarrow> P"
    and "r \<noteq> [] \<Longrightarrow> CHR 0x0A \<notin> set r \<Longrightarrow> P"
    and "\<And>pre rest. r = pre @ CHR 0x0A # rest \<Longrightarrow> CHR 0x0A \<notin> set pre \<Longrightarrow> P"
  shows P
  using assms split_first_nl by blast

lemma buffer_loop_invariant:
  assumes step: "\<And>b v. P v \<Longrightarrow> P (add_line E b v)"
  shows "P w \<Longrightarrow> P (snd (buffer_loop E r n w))"
proof (induction r arbitrary: n w rule: length_induct)
  case (1 r)
  show ?case
  proof (cases rule: buffer_loop_cases [of r])
    case Nil
    with 1 show ?thesis by (simp add: buffer_loop_Nil)
  next
    case Last
    with 1 step show ?thesis by (simp add: buffer_loop_no_nl)
  next
    case (Line pre rest)
    then have "length rest < length r" by simp
    moreover have "P (add_line E (pre @ [CHR 0x0A]) w)" using 1 step by blast
    ultimately have "P (snd (buffer_loop E rest (n + length (pre @ [CHR 0x0A])) (add_line E (pre @ [CHR 0x0A]) w)))"
      using 1 by blast
    with Line show ?thesis by (simp add: buffer_loop_line)
  qed
qed

lemma add_line_frame:
  "trace (add_line E b w) = trace w" "closed (add_line E b w) = closed w"
  "err (add_line E b w) = err w" "sequenceToken (add_line E b w) = sequenceToken w"
  "group (add_line E b w) = group w" "stream (add_line E b w) = stream w"
  by (simp_all add: add_line_def add_def)

lemma add_line_events:
  "events (add_line E b w) = events w @ [\<lparr>Message = b, Timestamp = go_quot (now E (nowCalls w)) 1000000\<rparr>]"
  by (simp add: add_line_def add_def)

lemma buffer_loop_frame:
  "trace (snd (buffer_loop E r n w)) = trace w"
  "closed (snd (buffer_loop E r n w)) = closed w"
  "err (snd (buffer_loop E r n w)) = err w"
  "sequenceToken (snd (buffer_loop E r n w)) = sequenceToken w"
  "group (snd (buffer_loop E r n w)) = group w"
  "stream (snd (buffer_loop E r n w)) = stream w"
proof -
  show "trace (snd (buffer_loop E r n w)) = trace w"
    by (rule buffer_loop_invariant [where P = "\<lambda>v. trace v = trace w"]) (simp_all add: add_line_frame)
  show "closed (snd (buffer_loop E r n w)) = closed w"
    by (rule buffer_loop_invariant [where P = "\<lambda>v. closed v = closed w"]) (simp_all add: add_line_frame)
  show "err (snd (buffer_loop E r n w)) = err w"
    by (rule buffer_loop_invariant [where P = "\<lambda>v. err v = err w"]) (simp_all add: add_line_frame)
  show "sequenceToken (snd (buffer_loop E r n w)) = sequenceToken w"
    by (rule buffer_loop_invariant [where P = "\<lambda>v. sequenceToken v = sequenceToken w"]) (simp_all add: add_line_frame)
  show "group (snd (buffer_loop E r n w)) = group w"
    by (rule buffer_loop_invariant [where P = "\<lambda>v. group v = group w"]) (simp_all add: add_line_frame)
  show "stream (snd (buffer_loop E r n w)) = stream w"
    by (rule buffer_loop_invariant [where P = "\<lambda>v. stream v = stream w"]) (simp_all add: add_line_frame)
qed

text \<open>The messages that the loop adds: the events after the first \<open>length (events w)\<close>.\<close>

lemma buffer_loop_messages:
  "\<exists>new. events (snd (buffer_loop E r n w)) = events w @ new
         \<and> concat (map Message new) = r \<and> [] \<notin> set (map Message new)"
proof (induction r arbitrary: n w rule: length_induct)
  case (1 r)
  show ?case
  proof (cases rule: buffer_loop_cases [of r])
    case Nil
    then show ?thesis by (simp add: buffer_loop_Nil)
  next
    case Last
    then show ?thesis by (simp add: buffer_loop_no_nl add_line_events)
  next
    case (Line pre rest)
    let ?l = "pre @ [CHR 0x0A]"
    let ?w = "add_line E ?l w"
    from Line have "length rest < length r" by simp
    with 1 obtain new where new:
      "events (snd (buffer_loop E rest (n + length ?l) ?w)) = events ?w @ new"
      "concat (map Message new) = rest" "[] \<notin> set (map Message new)"
      by blast
    let ?e = "\<lparr>Message = ?l, Timestamp = go_quot (now E (nowCalls w)) 1000000\<rparr>"
    have "events (snd (buffer_loop E r n w)) = events w @ (?e # new)"
      using Line new(1) by (simp add: buffer_loop_line add_line_events)
    moreover have "concat (map Message (?e # new)) = r"
      using Line new(2) by simp
    moreover have "[] \<notin> set (map Message (?e # new))"
      using new(3) by simp
    ultimately show ?thesis by blast
  qed
qed

lemma buffer_loop_append:
  "xs = [] \<or> last xs = CHR 0x0A \<Longrightarrow>
   buffer_loop E (xs @ ys) n w =
   buffer_loop E ys (fst (buffer_loop E xs n w)) (snd (buffer_loop E xs n w))"
proof (induction xs arbitrary: n w rule: length_induct)
  case (1 xs)
  show ?case
  proof (cases rule: buffer_loop_cases [of xs])
    case Nil
    then show ?thesis by (simp add: buffer_loop_Nil)
  next
    case Last
    with 1(2) have False by (metis last_in_set)
    then show ?thesis ..
  next
    case (Line pre rest)
    then have len: "length rest < length xs" by simp
    have ends: "rest = [] \<or> last rest = CHR 0x0A"
      using 1(2) Line by (cases "rest = []") simp_all
    have "buffer_loop E (xs @ ys) n w =
          buffer_loop E (rest @ ys) (n + length (pre @ [CHR 0x0A])) (add_line E (pre @ [CHR 0x0A]) w)"
      using Line buffer_loop_line [of pre E "rest @ ys" n w] by simp
    also have "\<dots> = buffer_loop E ys
        (fst (buffer_loop E rest (n + length (pre @ [CHR 0x0A])) (add_line E (pre @ [CHR 0x0A]) w)))
        (snd (buffer_loop E rest (n + length (pre @ [CHR 0x0A])) (add_line E (pre @ [CHR 0x0A]) w)))"
      using 1(1) len ends by blast
    also have "buffer_loop E rest (n + length (pre @ [CHR 0x0A])) (add_line E (pre @ [CHR 0x0A]) w)
        = buffer_loop E xs n w"
      using Line by (simp add: buffer_loop_line)
    finally show ?thesis .
  qed
qed

lemma buffer_loop_newlines:
  "map Message (events (snd (buffer_loop E (replicate k (CHR 0x0A)) n w))) =
   map Message (events w) @ replicate k [CHR 0x0A]"
proof (induction k arbitrary: n w)
  case 0
  show ?case by (simp add: buffer_loop_Nil)
next
  case (Suc k)
  have "buffer_loop E (replicate (Suc k) (CHR 0x0A)) n w =
        buffer_loop E (replicate k (CHR 0x0A)) (n + length ([] @ [CHR 0x0A])) (add_line E ([] @ [CHR 0x0A]) w)"
    using buffer_loop_line [of "[]" E "replicate k (CHR 0x0A)" n w] by simp
  then show ?case
    using Suc [of "n + length ([] @ [CHR 0x0A])" "add_line E ([] @ [CHR 0x0A]) w"]
    by (simp add: add_line_events replicate_append_same)
qed

section \<open>Splitting the message of a conflict\<close>

lemma split_from_no_sep: "sep \<notin> set s \<Longrightarrow> split_from sep cur s = [cur @ s]"
  by (induction s arbitrary: cur) auto

lemma split_from_not_Nil: "split_from sep cur s \<noteq> []"
  by (induction s arbitrary: cur) auto

lemma split_from_last:
  "sep \<notin> set t \<Longrightarrow> last (split_from sep cur (pre @ sep # t)) = t"
  by (induction pre arbitrary: cur) (simp_all add: split_from_no_sep split_from_not_Nil)

lemma Split_last_index:
  "Split s sep ! (length (Split s sep) - 1) = last (Split s sep)"
  by (simp add: Split_def split_from_not_Nil last_conv_nth)

lemma Split_token:
  "sep \<notin> set t \<Longrightarrow> Split (pre @ sep # t) sep ! (length (Split (pre @ sep # t) sep) - 1) = t"
proof -
  assume "sep \<notin> set t"
  then have "last (Split (pre @ sep # t) sep) = t"
    by (simp add: Split_def split_from_last)
  then show ?thesis by (simp only: Split_last_index)
qed

lemma codes_differ: "dataAlreadyAcceptedCode \<noteq> invalidSequenceTokenCode"
  by (simp add: dataAlreadyAcceptedCode_def invalidSequenceTokenCode_def)

lemma flush_ok:
  assumes "PutLogEvents E (trace w) \<lparr>LogEvents = evs, LogGroupName = group w, LogStreamName = stream w, SequenceToken = sequenceToken w\<rparr> = Inr resp"
  shows "trace (flush E evs w) = trace w @ [Put \<lparr>LogEvents = evs, LogGroupName = group w, LogStreamName = stream w, SequenceToken = sequenceToken w\<rparr>]"
    and "sequenceToken (flush E evs w) = NextSequenceToken resp"
    and "err (flush E evs w) = err w"
    and "events (flush E evs w) = events w"
    and "closed (flush E evs w) = closed w"
  using assms by (simp_all add: flush_def putLogEvents_def Let_def)

lemma flush_already:
  assumes "PutLogEvents E (trace w) \<lparr>LogEvents = evs, LogGroupName = group w, LogStreamName = stream w, SequenceToken = sequenceToken w\<rparr> = Inl (AwsError dataAlreadyAcceptedCode msg)"
  shows "trace (flush E evs w) = trace w @ [Put \<lparr>LogEvents = evs, LogGroupName = group w, LogStreamName = stream w, SequenceToken = sequenceToken w\<rparr>]"
    and "sequenceToken (flush E evs w) = Some (Split msg (CHR '' '') ! (length (Split msg (CHR '' '')) - 1))"
    and "err (flush E evs w) = err w"
  using assms by (simp_all add: flush_def putLogEvents_def Let_def)

lemma putLogEvents_Inl:
  "PutLogEvents E (trace w) \<lparr>LogEvents = evs, LogGroupName = group w, LogStreamName = stream w, SequenceToken = tok\<rparr> = Inl e \<Longrightarrow>
   putLogEvents E evs tok w =
     (None, Some e, w\<lparr>trace := trace w @ [Put \<lparr>LogEvents = evs, LogGroupName = group w, LogStreamName = stream w, SequenceToken = tok\<rparr>]\<rparr>)"
  by (simp add: putLogEvents_def Let_def)

lemma putLogEvents_Inr:
  "PutLogEvents E (trace w) \<lparr>LogEvents = evs, LogGroupName = group w, LogStreamName = stream w, SequenceToken = tok\<rparr> = Inr resp \<Longrightarrow>
   putLogEvents E evs tok w =
     (NextSequenceToken resp, None, w\<lparr>trace := trace w @ [Put \<lparr>LogEvents = evs, LogGroupName = group w, LogStreamName = stream w, SequenceToken = tok\<rparr>]\<rparr>)"
  by (simp add: putLogEvents_def Let_def)

lemma flush_stale:
  assumes first: "PutLogEvents E (trace w) \<lparr>LogEvents = evs, LogGroupName = group w, LogStreamName = stream w, SequenceToken = sequenceToken w\<rparr> = Inl (AwsError invalidSequenceTokenCode msg)"
    and t: "t = Split msg (CHR '' '') ! (length (Split msg (CHR '' '')) - 1)"
  shows "trace (flush E evs w) = trace w @ [Put \<lparr>LogEvents = evs, LogGroupName = group w, LogStreamName = stream w, SequenceToken = sequenceToken w\<rparr>,
           Put \<lparr>LogEvents = evs, LogGroupName = group w, LogStreamName = stream w, SequenceToken = Some t\<rparr>]"
    and "PutLogEvents E (trace w @ [Put \<lparr>LogEvents = evs, LogGroupName = group w, LogStreamName = stream w, SequenceToken = sequenceToken w\<rparr>])
           \<lparr>LogEvents = evs, LogGroupName = group w, LogStreamName = stream w, SequenceToken = Some t\<rparr> = Inr resp
         \<Longrightarrow> sequenceToken (flush E evs w) = NextSequenceToken resp \<and> err (flush E evs w) = err w"
    and "PutLogEvents E (trace w @ [Put \<lparr>LogEvents = evs, LogGroupName = group w, LogStreamName = stream w, SequenceToken = sequenceToken w\<rparr>])
           \<lparr>LogEvents = evs, LogGroupName = group w, LogStreamName = stream w, SequenceToken = Some t\<rparr> = Inl e
         \<Longrightarrow> err (flush E evs w) = Some e \<and> sequenceToken (flush E evs w) = sequenceToken w"
proof -
  let ?in1 = "\<lparr>LogEvents = evs, LogGroupName = group w, LogStreamName = stream w, SequenceToken = sequenceToken w\<rparr>"
  let ?in2 = "\<lparr>LogEvents = evs, LogGroupName = group w, LogStreamName = stream w, SequenceToken = Some t\<rparr>"
  let ?w1 = "w\<lparr>trace := trace w @ [Put ?in1]\<rparr>"
  have nc: "invalidSequenceTokenCode \<noteq> dataAlreadyAcceptedCode" using codes_differ by simp
  have fl: "flush E evs w =
      (case putLogEvents E evs (Some t) ?w1 of
         (n', err2, w2) \<Rightarrow> (case err2 of Some e \<Rightarrow> w2\<lparr>err := Some e\<rparr> | None \<Rightarrow> w2\<lparr>sequenceToken := n'\<rparr>))"
    unfolding flush_def putLogEvents_Inl [OF first] using nc t by (simp add: Let_def)
  show "trace (flush E evs w) = trace w @ [Put ?in1, Put ?in2]"
    unfolding fl by (simp add: putLogEvents_def Let_def split: sum.splits)
  show "sequenceToken (flush E evs w) = NextSequenceToken resp \<and> err (flush E evs w) = err w"
    if "PutLogEvents E (trace w @ [Put ?in1]) ?in2 = Inr resp"
    unfolding fl using that by (simp add: putLogEvents_def Let_def)
  show "err (flush E evs w) = Some e \<and> sequenceToken (flush E evs w) = sequenceToken w"
    if "PutLogEvents E (trace w @ [Put ?in1]) ?in2 = Inl e"
    unfolding fl using that by (simp add: putLogEvents_def Let_def)
qed

lemma flush_other:
  assumes first: "PutLogEvents E (trace w) \<lparr>LogEvents = evs, LogGroupName = group w, LogStreamName = stream w, SequenceToken = sequenceToken w\<rparr> = Inl e"
    and other: "\<not> conflict e"
  shows "trace (flush E evs w) = trace w @ [Put \<lparr>LogEvents = evs, LogGroupName = group w, LogStreamName = stream w, SequenceToken = sequenceToken w\<rparr>]"
    and "err (flush E evs w) = Some e"
    and "sequenceToken (flush E evs w) = sequenceToken w"
proof -
  have "flush E evs w = (w\<lparr>trace := trace w @ [Put \<lparr>LogEvents = evs, LogGroupName = group w, LogStreamName = stream w, SequenceToken = sequenceToken w\<rparr>]\<rparr>)\<lparr>err := Some e\<rparr>"
    unfolding flush_def putLogEvents_Inl [OF first] using other by (cases e) (simp_all add: conflict_def)
  then show "trace (flush E evs w) = trace w @ [Put \<lparr>LogEvents = evs, LogGroupName = group w, LogStreamName = stream w, SequenceToken = sequenceToken w\<rparr>]"
    and "err (flush E evs w) = Some e"
    and "sequenceToken (flush E evs w) = sequenceToken w"
    by simp_all
qed

lemma putLogEvents_world:
  "snd (snd (putLogEvents E evs tok w)) =
   w\<lparr>trace := trace w @ [Put \<lparr>LogEvents = evs, LogGroupName = group w, LogStreamName = stream w, SequenceToken = tok\<rparr>]\<rparr>"
  by (simp add: putLogEvents_def Let_def split: sum.splits)

text \<open>The shape of every flush: the first call, then at most one more call, and only
  the error, the token and the trace change.\<close>

lemma flush_shape:
  "\<exists>rest e' t'. flush E evs w =
      w\<lparr>trace := trace w @ Put \<lparr>LogEvents = evs, LogGroupName = group w, LogStreamName = stream w, SequenceToken = sequenceToken w\<rparr> # rest,
        err := e', sequenceToken := t'\<rparr>
    \<and> (rest = [] \<or> (\<exists>t. rest = [Put \<lparr>LogEvents = evs, LogGroupName = group w, LogStreamName = stream w, SequenceToken = Some t\<rparr>]))"
proof -
  let ?in1 = "\<lparr>LogEvents = evs, LogGroupName = group w, LogStreamName = stream w, SequenceToken = sequenceToken w\<rparr>"
  let ?w1 = "w\<lparr>trace := trace w @ [Put ?in1]\<rparr>"
  have upd: "\<And>rest e' t'. w\<lparr>trace := trace w @ Put ?in1 # rest, err := e', sequenceToken := t'\<rparr>
      = w\<lparr>trace := trace w @ Put ?in1 # rest, sequenceToken := t', err := e'\<rparr>" by simp
  show ?thesis
  proof (cases "PutLogEvents E (trace w) ?in1")
    case (Inr resp)
    have "flush E evs w = w\<lparr>trace := trace w @ Put ?in1 # [], err := err w, sequenceToken := NextSequenceToken resp\<rparr>"
      unfolding flush_def putLogEvents_Inr [OF Inr] by simp
    then show ?thesis by blast
  next
    case (Inl e)
    note first = putLogEvents_Inl [OF Inl]
    show ?thesis
    proof (cases "conflict e")
      case False
      have "flush E evs w = w\<lparr>trace := trace w @ Put ?in1 # [], err := Some e, sequenceToken := sequenceToken w\<rparr>"
        unfolding flush_def first using False by (cases e) (simp_all add: conflict_def)
      then show ?thesis by blast
    next
      case True
      then obtain code msg where e: "e = AwsError code msg"
        and code: "code = dataAlreadyAcceptedCode \<or> code = invalidSequenceTokenCode"
        by (cases e) (simp_all add: conflict_def)
      let ?t = "Split msg (CHR '' '') ! (length (Split msg (CHR '' '')) - 1)"
      show ?thesis
      proof (cases "code = dataAlreadyAcceptedCode")
        case True
        have "flush E evs w = w\<lparr>trace := trace w @ Put ?in1 # [], err := err w, sequenceToken := Some ?t\<rparr>"
          unfolding flush_def first using True e by (simp add: Let_def)
        then show ?thesis by blast
      next
        case False
        with code have inv: "code = invalidSequenceTokenCode" by simp
        let ?in2 = "\<lparr>LogEvents = evs, LogGroupName = group w, LogStreamName = stream w, SequenceToken = Some ?t\<rparr>"
        have fl: "flush E evs w =
          (case putLogEvents E evs (Some ?t) ?w1 of
             (n', err2, w2) \<Rightarrow> (case err2 of Some e \<Rightarrow> w2\<lparr>err := Some e\<rparr> | None \<Rightarrow> w2\<lparr>sequenceToken := n'\<rparr>))"
          unfolding flush_def first using False inv e by (simp add: Let_def)
        show ?thesis
        proof (cases "PutLogEvents E (trace ?w1) \<lparr>LogEvents = evs, LogGroupName = group ?w1, LogStreamName = stream ?w1, SequenceToken = Some ?t\<rparr>")
          case (Inl e2)
          have "flush E evs w = w\<lparr>trace := trace w @ Put ?in1 # [Put ?in2], err := Some e2, sequenceToken := sequenceToken w\<rparr>"
            unfolding fl putLogEvents_Inl [OF Inl] by simp
          then show ?thesis by blast
        next
          case (Inr resp)
          have "flush E evs w = w\<lparr>trace := trace w @ Put ?in1 # [Put ?in2], err := err w, sequenceToken := NextSequenceToken resp\<rparr>"
            unfolding fl putLogEvents_Inr [OF Inr] by simp
          then show ?thesis by blast
        qed
      qed
    qed
  qed
qed

lemma flush_frame:
  "events (flush E evs w) = events w" "closed (flush E evs w) = closed w"
  "group (flush E evs w) = group w" "stream (flush E evs w) = stream w"
  "nowCalls (flush E evs w) = nowCalls w"
proof -
  obtain rest e' t' where "flush E evs w =
      w\<lparr>trace := trace w @ Put \<lparr>LogEvents = evs, LogGroupName = group w, LogStreamName = stream w, SequenceToken = sequenceToken w\<rparr> # rest,
        err := e', sequenceToken := t'\<rparr>"
    using flush_shape by blast
  then show "events (flush E evs w) = events w" "closed (flush E evs w) = closed w"
  "group (flush E evs w) = group w" "stream (flush E evs w) = stream w"
  "nowCalls (flush E evs w) = nowCalls w" by simp_all
qed

section \<open>Writes and flushes\<close>

lemma buffer_count: "fst (buffer E b w) = length b" "fst (snd (buffer E b w)) = None"
  using buffer_loop_count [of E b 0 w] by (simp_all add: buffer_def case_prod_unfold)

lemma buffer_world: "snd (snd (buffer E b w)) = snd (buffer_loop E b 0 w)"
  by (simp add: buffer_def case_prod_unfold)

lemma buffer_loop_world_count:
  "snd (buffer_loop E r n w) = snd (buffer_loop E r m w)"
proof (induction r arbitrary: n m w rule: length_induct)
  case (1 r)
  show ?case
  proof (cases rule: buffer_loop_cases [of r])
    case Nil
    then show ?thesis by (simp add: buffer_loop_Nil)
  next
    case Last
    then show ?thesis by (simp add: buffer_loop_no_nl)
  next
    case (Line pre rest)
    then have "length rest < length r" by simp
    with 1 have "snd (buffer_loop E rest (n + length (pre @ [CHR 0x0A])) (add_line E (pre @ [CHR 0x0A]) w))
        = snd (buffer_loop E rest (m + length (pre @ [CHR 0x0A])) (add_line E (pre @ [CHR 0x0A]) w))"
      by blast
    with Line show ?thesis by (simp add: buffer_loop_line)
  qed
qed

lemma Write_open: "\<not> closed w \<Longrightarrow> err w = None \<Longrightarrow> snd (snd (Write E b w)) = snd (buffer_loop E b 0 w)"
  by (simp add: Write_def buffer_world)

lemma Write_frame:
  "closed (snd (snd (Write E b w))) = closed w" "err (snd (snd (Write E b w))) = err w"
  "trace (snd (snd (Write E b w))) = trace w" "sequenceToken (snd (snd (Write E b w))) = sequenceToken w"
  "group (snd (snd (Write E b w))) = group w" "stream (snd (snd (Write E b w))) = stream w"
  by (simp_all add: Write_def buffer_world buffer_loop_frame split: option.splits)

lemma Write_append:
  assumes "\<not> closed w" "err w = None" "xs = [] \<or> last xs = CHR 0x0A"
  shows "snd (snd (Write E (xs @ ys) w)) = snd (snd (Write E ys (snd (snd (Write E xs w)))))"
proof -
  let ?w = "snd (buffer_loop E xs 0 w)"
  have open': "\<not> closed ?w" "err ?w = None"
    using assms by (simp_all add: buffer_loop_frame)
  have "snd (snd (Write E (xs @ ys) w)) = snd (buffer_loop E (xs @ ys) 0 w)"
    using assms by (simp add: Write_open)
  also have "\<dots> = snd (buffer_loop E ys (fst (buffer_loop E xs 0 w)) ?w)"
    using assms(3) by (simp add: buffer_loop_append)
  also have "\<dots> = snd (buffer_loop E ys 0 ?w)"
    by (rule buffer_loop_world_count)
  also have "\<dots> = snd (snd (Write E ys ?w))"
    using open' by (simp add: Write_open)
  also have "?w = snd (snd (Write E xs w))"
    using assms by (simp add: Write_open)
  finally show ?thesis .
qed

lemma writes_concat:
  assumes "\<not> closed w" "err w = None"
    and "\<forall>c \<in> set (butlast chunks). c = [] \<or> last c = CHR 0x0A"
  shows "run_ops E (map OpWrite chunks) w = snd (snd (Write E (concat chunks) w))"
  using assms
proof (induction chunks arbitrary: w)
  case Nil
  then show ?case by (simp add: Write_open buffer_loop_Nil)
next
  case (Cons c cs)
  let ?w = "snd (snd (Write E c w))"
  show ?case
  proof (cases "cs = []")
    case True
    then show ?thesis by (simp add: apply_op_def)
  next
    case False
    with Cons.prems have c: "c = [] \<or> last c = CHR 0x0A"
      and rest: "\<forall>c \<in> set (butlast cs). c = [] \<or> last c = CHR 0x0A" by simp_all
    have "\<not> closed ?w" "err ?w = None" using Cons.prems by (simp_all add: Write_frame)
    then have "run_ops E (map OpWrite cs) ?w = snd (snd (Write E (concat cs) ?w))"
      using Cons.IH rest by blast
    also have "\<dots> = snd (snd (Write E (c @ concat cs) w))"
      using Write_append [OF Cons.prems(1,2) c] by simp
    finally show ?thesis by (simp add: apply_op_def)
  qed
qed

text \<open>The messages that the loop adds depend on the bytes only.\<close>

lemma buffer_loop_messages_fixed:
  "\<exists>ms. concat ms = r \<and>
     (\<forall>E n v. map Message (events (snd (buffer_loop E r n v))) = map Message (events v) @ ms)"
proof (induction r rule: length_induct)
  case (1 r)
  show ?case
  proof (cases rule: buffer_loop_cases [of r])
    case Nil
    then have "concat [] = r \<and>
      (\<forall>E n v. map Message (events (snd (buffer_loop E r n v))) = map Message (events v) @ [])"
      by (simp add: buffer_loop_Nil)
    then show ?thesis by blast
  next
    case Last
    then have "concat [r] = r \<and>
      (\<forall>E n v. map Message (events (snd (buffer_loop E r n v))) = map Message (events v) @ [r])"
      by (simp add: buffer_loop_no_nl add_line_events)
    then show ?thesis by blast
  next
    case (Line pre rest)
    then have "length rest < length r" by simp
    with 1 obtain ms where ms: "concat ms = rest"
      "\<And>E n v. map Message (events (snd (buffer_loop E rest n v))) = map Message (events v) @ ms"
      by blast
    have "concat ((pre @ [CHR 0x0A]) # ms) = r \<and>
      (\<forall>E n v. map Message (events (snd (buffer_loop E r n v))) =
                map Message (events v) @ (pre @ [CHR 0x0A]) # ms)"
      using Line ms by (simp add: buffer_loop_line add_line_events)
    then show ?thesis by blast
  qed
qed

lemma last_line_of_piece:
  assumes "xs \<noteq> []" "last xs \<noteq> CHR 0x0A"
  shows "\<exists>pre l. xs = pre @ l \<and> (pre = [] \<or> last pre = CHR 0x0A) \<and> CHR 0x0A \<notin> set l \<and> l \<noteq> []"
proof (cases "CHR 0x0A \<in> set xs")
  case False
  with assms(1) have "xs = [] @ xs \<and> ([] = [] \<or> last [] = CHR 0x0A) \<and> CHR 0x0A \<notin> set xs \<and> xs \<noteq> []"
    by simp
  then show ?thesis by blast
next
  case True
  then obtain as l where s: "xs = as @ CHR 0x0A # l" "CHR 0x0A \<notin> set l"
    using split_list_last by fastforce
  with assms(2) have "l \<noteq> []" by auto
  with s have "xs = (as @ [CHR 0x0A]) @ l \<and> (as @ [CHR 0x0A] = [] \<or> last (as @ [CHR 0x0A]) = CHR 0x0A)
      \<and> CHR 0x0A \<notin> set l \<and> l \<noteq> []" by simp
  then show ?thesis by blast
qed

lemma split_inside_line:
  assumes op: "\<not> closed w" "err w = None"
    and xs: "xs \<noteq> []" "last xs \<noteq> CHR 0x0A" and ys: "ys \<noteq> []"
  shows "\<exists>before l1 l2 after.
           l1 \<noteq> [] \<and> l2 \<noteq> [] \<and> concat before @ l1 = xs \<and> l2 @ concat after = ys
         \<and> map Message (events (run_ops E [OpWrite xs, OpWrite ys] w))
             = map Message (events w) @ before @ [l1, l2] @ after
         \<and> map Message (events (snd (snd (Write E (xs @ ys) w))))
             = map Message (events w) @ before @ [l1 @ l2] @ after"
proof -
  obtain pre l1 where p: "xs = pre @ l1" "pre = [] \<or> last pre = CHR 0x0A"
    "CHR 0x0A \<notin> set l1" "l1 \<noteq> []"
    using last_line_of_piece [OF xs] by blast
  obtain before where b: "concat before = pre"
    "\<And>E n v. map Message (events (snd (buffer_loop E pre n v))) = map Message (events v) @ before"
    using buffer_loop_messages_fixed [of pre] by blast
  let ?n1 = "fst (buffer_loop E pre 0 w)"
  let ?w1 = "snd (buffer_loop E pre 0 w)"
  let ?wA = "add_line E l1 ?w1"
  have m1: "map Message (events ?w1) = map Message (events w) @ before" by (rule b(2))
  have open1: "\<not> closed ?wA" "err ?wA = None"
    using op by (simp_all add: add_line_frame buffer_loop_frame)
  have wx: "snd (snd (Write E xs w)) = ?wA"
    using op p(3,4) by (simp add: Write_open p(1) buffer_loop_append [OF p(2)] buffer_loop_no_nl)
  have split: "run_ops E [OpWrite xs, OpWrite ys] w = snd (buffer_loop E ys 0 ?wA)"
    using open1 by (simp add: apply_op_def wx Write_open)
  have joint: "snd (snd (Write E (xs @ ys) w)) = snd (buffer_loop E (l1 @ ys) ?n1 ?w1)"
    using op buffer_loop_append [OF p(2), of E "l1 @ ys" 0 w] by (simp add: Write_open p(1))
  show ?thesis
  proof (cases rule: buffer_loop_cases [of ys])
    case Nil
    with ys show ?thesis by simp
  next
    case Last
    have "map Message (events (run_ops E [OpWrite xs, OpWrite ys] w))
            = map Message (events w) @ before @ [l1, ys] @ []"
      unfolding split using Last m1 by (simp add: buffer_loop_no_nl add_line_events)
    moreover have "map Message (events (snd (snd (Write E (xs @ ys) w))))
            = map Message (events w) @ before @ [l1 @ ys] @ []"
      unfolding joint using Last p(3,4) m1 by (simp add: buffer_loop_no_nl add_line_events)
    moreover have "concat before @ l1 = xs" "ys @ concat [] = ys" using b(1) p(1) by simp_all
    ultimately show ?thesis using p(4) ys by blast
  next
    case (Line q rest)
    obtain after where a: "concat after = rest"
      "\<And>E n v. map Message (events (snd (buffer_loop E rest n v))) = map Message (events v) @ after"
      using buffer_loop_messages_fixed [of rest] by blast
    let ?l2 = "q @ [CHR 0x0A]"
    have "map Message (events (run_ops E [OpWrite xs, OpWrite ys] w))
            = map Message (events w) @ before @ [l1, ?l2] @ after"
      unfolding split using Line m1 by (simp add: buffer_loop_line a(2) add_line_events)
    moreover have "l1 @ ys = (l1 @ q) @ CHR 0x0A # rest" "CHR 0x0A \<notin> set (l1 @ q)"
      using Line p(3) by simp_all
    then have "buffer_loop E (l1 @ ys) ?n1 ?w1 =
        buffer_loop E rest (?n1 + length ((l1 @ q) @ [CHR 0x0A])) (add_line E ((l1 @ q) @ [CHR 0x0A]) ?w1)"
      using buffer_loop_line [of "l1 @ q" E rest ?n1 ?w1] by simp
    then have "map Message (events (snd (snd (Write E (xs @ ys) w))))
            = map Message (events w) @ before @ [l1 @ ?l2] @ after"
      unfolding joint using m1 by (simp add: a(2) add_line_events)
    moreover have "concat before @ l1 = xs" "?l2 @ concat after = ys" using b(1) p(1) a(1) Line by simp_all
    moreover have "?l2 \<noteq> []" by simp
    ultimately show ?thesis using p(4) by blast
  qed
qed

lemma Flush_nonempty: "events w \<noteq> [] \<Longrightarrow> Flush E w = flush E (events w) (w\<lparr>events := []\<rparr>)"
  by (simp add: Flush_def drain_def)

lemma Flush_empty: "events w = [] \<Longrightarrow> Flush E w = w\<lparr>events := []\<rparr>"
  by (simp add: Flush_def drain_def)

lemma Flush_first_call:
  assumes "events w \<noteq> []"
  shows "\<exists>rest. trace (Flush E w) =
     trace w @ Put \<lparr>LogEvents = events w, LogGroupName = group w, LogStreamName = stream w, SequenceToken = sequenceToken w\<rparr> # rest
     \<and> (rest = [] \<or> (\<exists>t. rest = [Put \<lparr>LogEvents = events w, LogGroupName = group w, LogStreamName = stream w, SequenceToken = Some t\<rparr>]))"
proof -
  obtain rest e' t' where
    "flush E (events w) (w\<lparr>events := []\<rparr>) =
      (w\<lparr>events := []\<rparr>)\<lparr>trace := trace (w\<lparr>events := []\<rparr>) @ Put \<lparr>LogEvents = events w, LogGroupName = group (w\<lparr>events := []\<rparr>),
          LogStreamName = stream (w\<lparr>events := []\<rparr>), SequenceToken = sequenceToken (w\<lparr>events := []\<rparr>)\<rparr> # rest,
        err := e', sequenceToken := t'\<rparr>"
    and "rest = [] \<or> (\<exists>t. rest = [Put \<lparr>LogEvents = events w, LogGroupName = group (w\<lparr>events := []\<rparr>),
          LogStreamName = stream (w\<lparr>events := []\<rparr>), SequenceToken = Some t\<rparr>])"
    using flush_shape [of E "events w" "w\<lparr>events := []\<rparr>"] by blast
  then show ?thesis using assms by (simp add: Flush_nonempty)
qed

section \<open>A failed writer\<close>

lemma Write_failed:
  "err w = Some e \<Longrightarrow> Write E b w = (0, Some (if closed w then ErrClosedPipe else e), w)"
  by (simp add: Write_def)

lemma apply_op_failed:
  assumes "err w = Some e" "events w = []"
  shows "err (apply_op E x w) = Some e \<and> events (apply_op E x w) = [] \<and> trace (apply_op E x w) = trace w
       \<and> sequenceToken (apply_op E x w) = sequenceToken w"
  using assms by (cases x) (simp_all add: apply_op_def Write_failed Close_def Flush_empty)

lemma run_ops_failed:
  assumes "err w = Some e" "events w = []"
  shows "err (run_ops E ops w) = Some e \<and> events (run_ops E ops w) = [] \<and> trace (run_ops E ops w) = trace w
       \<and> sequenceToken (run_ops E ops w) = sequenceToken w"
  using assms
proof (induction ops arbitrary: w)
  case Nil
  then show ?case by simp
next
  case (Cons x xs)
  from apply_op_failed [OF Cons.prems, of E x]
  have a: "err (apply_op E x w) = Some e" "events (apply_op E x w) = []"
    "trace (apply_op E x w) = trace w" "sequenceToken (apply_op E x w) = sequenceToken w" by simp_all
  from Cons.IH [OF a(1,2)] a(3,4) show ?case by simp
qed

lemma Flush_other:
  assumes "events w \<noteq> []"
    and "PutLogEvents E (trace w)
           \<lparr>LogEvents = events w, LogGroupName = group w, LogStreamName = stream w,
            SequenceToken = sequenceToken w\<rparr> = Inl e"
    and "\<not> conflict e"
  shows "err (Flush E w) = Some e" "events (Flush E w) = []"
    "trace (Flush E w) = trace w @ [Put \<lparr>LogEvents = events w, LogGroupName = group w, LogStreamName = stream w,
            SequenceToken = sequenceToken w\<rparr>]"
proof -
  let ?w = "w\<lparr>events := []\<rparr>"
  have first: "PutLogEvents E (trace ?w)
           \<lparr>LogEvents = events w, LogGroupName = group ?w, LogStreamName = stream ?w,
            SequenceToken = sequenceToken ?w\<rparr> = Inl e"
    using assms(2) by simp
  show "err (Flush E w) = Some e"
    using flush_other(2) [OF first assms(3)] assms(1) by (simp add: Flush_nonempty)
  show "events (Flush E w) = []"
    using assms(1) by (simp add: Flush_nonempty flush_frame)
  show "trace (Flush E w) = trace w @ [Put \<lparr>LogEvents = events w, LogGroupName = group w, LogStreamName = stream w,
            SequenceToken = sequenceToken w\<rparr>]"
    using flush_other(1) [OF first assms(3)] assms(1) by (simp add: Flush_nonempty)
qed

lemma buffer_loop_many_lines:
  "CHR 0x0A \<notin> set l \<Longrightarrow>
   length (events (snd (buffer_loop E (concat (replicate k (l @ [CHR 0x0A]))) n w))) = length (events w) + k"
proof (induction k arbitrary: n w)
  case 0
  show ?case by (simp add: buffer_loop_Nil)
next
  case (Suc k)
  have "buffer_loop E (concat (replicate (Suc k) (l @ [CHR 0x0A]))) n w =
        buffer_loop E (concat (replicate k (l @ [CHR 0x0A]))) (n + length (l @ [CHR 0x0A])) (add_line E (l @ [CHR 0x0A]) w)"
    using buffer_loop_line [OF Suc.prems, of E "concat (replicate k (l @ [CHR 0x0A]))" n w] by simp
  then show ?case
    using Suc.IH [OF Suc.prems, of "n + length (l @ [CHR 0x0A])" "add_line E (l @ [CHR 0x0A]) w"]
    by (simp add: add_line_events)
qed

lemma Flush_frame:
  "closed (Flush E w) = closed w" "events (Flush E w) = []"
  "group (Flush E w) = group w" "stream (Flush E w) = stream w"
  by (simp_all add: Flush_def drain_def flush_frame)

lemma Flush_retry_fails:
  assumes "events w \<noteq> []"
    and "PutLogEvents E (trace w)
           \<lparr>LogEvents = events w, LogGroupName = group w, LogStreamName = stream w,
            SequenceToken = sequenceToken w\<rparr> = Inl (AwsError invalidSequenceTokenCode msg)"
    and "PutLogEvents E
           (trace w @ [Put \<lparr>LogEvents = events w, LogGroupName = group w, LogStreamName = stream w,
                             SequenceToken = sequenceToken w\<rparr>])
           \<lparr>LogEvents = events w, LogGroupName = group w, LogStreamName = stream w,
            SequenceToken = Some (last (Split msg (CHR '' '')))\<rparr> = Inl e"
  shows "err (Flush E w) = Some e" "events (Flush E w) = []"
proof -
  let ?w = "w\<lparr>events := []\<rparr>"
  have first: "PutLogEvents E (trace ?w)
           \<lparr>LogEvents = events w, LogGroupName = group ?w, LogStreamName = stream ?w,
            SequenceToken = sequenceToken ?w\<rparr> = Inl (AwsError invalidSequenceTokenCode msg)"
    using assms(2) by simp
  have t: "last (Split msg (CHR '' '')) = Split msg (CHR '' '') ! (length (Split msg (CHR '' '')) - 1)"
    by (simp only: Split_last_index)
  have retry: "PutLogEvents E
           (trace ?w @ [Put \<lparr>LogEvents = events w, LogGroupName = group ?w, LogStreamName = stream ?w,
                             SequenceToken = sequenceToken ?w\<rparr>])
           \<lparr>LogEvents = events w, LogGroupName = group ?w, LogStreamName = stream ?w,
            SequenceToken = Some (last (Split msg (CHR '' '')))\<rparr> = Inl e"
    using assms(3) by simp
  show "err (Flush E w) = Some e"
    using flush_stale(3) [OF first t retry] assms(1) by (simp add: Flush_nonempty)
  show "events (Flush E w) = []"
    by (rule Flush_frame)
qed

section \<open>The token lookup and the loop\<close>

lemma getSequenceToken_None:
  assumes "sequenceToken w = None"
  shows "snd (getSequenceToken E w) =
           w\<lparr>trace := trace w @ [Describe \<lparr>DescribeGroupName = group w, LogStreamNamePrefix = stream w\<rparr>]\<rparr>"
    and "fst (getSequenceToken E w) =
           (case DescribeLogStreams E (trace w) \<lparr>DescribeGroupName = group w, LogStreamNamePrefix = stream w\<rparr> of
              Inl e \<Rightarrow> None
            | Inr streams \<Rightarrow>
                (case find (\<lambda>s. StreamName s = stream w) streams of
                   None \<Rightarrow> None
                 | Some s \<Rightarrow> UploadSequenceToken s))"
  using assms by (simp_all add: getSequenceToken_def Let_def split: sum.splits option.splits)

lemma flush_v1_trace:
  assumes "sequenceToken w = None"
  shows "trace (snd (flush_v1 E evs w)) =
     trace w @ [Describe \<lparr>DescribeGroupName = group w, LogStreamNamePrefix = stream w\<rparr>,
                Put \<lparr>LogEvents = evs, LogGroupName = group w, LogStreamName = stream w,
                      SequenceToken = fst (getSequenceToken E w)\<rparr>]"
proof -
  obtain tok w1 where g: "getSequenceToken E w = (tok, w1)" by (cases "getSequenceToken E w")
  with getSequenceToken_None(1) [OF assms, of E]
  have w1: "w1 = w\<lparr>trace := trace w @ [Describe \<lparr>DescribeGroupName = group w, LogStreamNamePrefix = stream w\<rparr>]\<rparr>"
    by simp
  show ?thesis
    unfolding flush_v1_def g by (simp add: w1 Let_def split: sum.splits)
qed

lemma apply_op_closed: "closed (apply_op E x w) = (closed w \<or> x = OpClose)"
  by (cases x) (simp_all add: apply_op_def Write_frame Flush_frame Close_def)

lemma run_ops_closed: "closed (run_ops E ops w) = (closed w \<or> OpClose \<in> set ops)"
  by (induction ops arbitrary: w) (auto simp: apply_op_closed)

section \<open>Claims about writing\<close>

text \<open>
  Claim C10. A writer that is neither closed nor failed accepts every write: \<open>Write\<close> returns
  the length of its input and no error, and the client receives no call.
\<close>

theorem Write_open_accepts_all:
  "\<not> closed w \<Longrightarrow> err w = None \<Longrightarrow>
   fst (Write E b w) = length b \<and> fst (snd (Write E b w)) = None
   \<and> trace (snd (snd (Write E b w))) = trace w"
  by (simp add: Write_def buffer_count buffer_world buffer_loop_frame)

theorem Write_open_accepts_all_witness:
  "\<not> closed (NewWriter ''g'' ''s'') \<and> err (NewWriter ''g'' ''s'') = None
   \<and> Write stub_accepting ''a\<newline>b'' (NewWriter ''g'' ''s'') =
       (3, None, (NewWriter ''g'' ''s'')\<lparr>events := [\<lparr>Message = ''a\<newline>'', Timestamp = 0\<rparr>, \<lparr>Message = ''b'', Timestamp = 1\<rparr>], nowCalls := 2\<rparr>)"
  using Write_open_accepts_all [of "NewWriter ''g'' ''s''" stub_accepting "''a\<newline>b''"]
  by (simp add: Write_def buffer_def buffer_loop.simps ReadBytes_def add_line_def add_def go_quot_def NewWriter_def stub_accepting_def)

text \<open>
  Claim C5, as the code has it. After one write of \<open>a\<newline>b\<newline>c\<close> to a new writer, the first call
  of the following flush carries exactly three events, in this order, and the messages of
  the first two keep their newline: \<open>a\<newline>\<close>, \<open>b\<newline>\<close> and \<open>c\<close>. \<open>ReadBytes\<close> returns the delimiter with the
  line and \<open>buffer\<close> does not strip it.
\<close>

theorem three_lines_flushed_with_newlines:
  "\<exists>rest. trace (Flush E (snd (snd (Write E ''a\<newline>b\<newline>c'' (NewWriter g s))))) =
     Put \<lparr>LogEvents = [\<lparr>Message = ''a\<newline>'', Timestamp = go_quot (now E 0) 1000000\<rparr>,
                        \<lparr>Message = ''b\<newline>'', Timestamp = go_quot (now E 1) 1000000\<rparr>,
                        \<lparr>Message = ''c'', Timestamp = go_quot (now E 2) 1000000\<rparr>],
          LogGroupName = g, LogStreamName = s, SequenceToken = None\<rparr> # rest"
proof -
  let ?w = "snd (snd (Write E ''a\<newline>b\<newline>c'' (NewWriter g s)))"
  have ev: "events ?w = [\<lparr>Message = ''a\<newline>'', Timestamp = go_quot (now E 0) 1000000\<rparr>,
                        \<lparr>Message = ''b\<newline>'', Timestamp = go_quot (now E 1) 1000000\<rparr>,
                        \<lparr>Message = ''c'', Timestamp = go_quot (now E 2) 1000000\<rparr>]"
    by (simp add: Write_def buffer_def buffer_loop.simps ReadBytes_def add_line_def add_def NewWriter_def numeral_2_eq_2)
  have fr: "trace ?w = []" "group ?w = g" "stream ?w = s" "sequenceToken ?w = None"
    by (simp_all add: Write_frame) (simp_all add: NewWriter_def)
  have "events ?w \<noteq> []" using ev by simp
  from Flush_first_call [OF this, of E] show ?thesis
    unfolding fr ev by auto
qed

theorem three_lines_flushed_with_newlines_witness:
  "trace (Flush stub_accepting (snd (snd (Write stub_accepting ''a\<newline>b\<newline>c'' (NewWriter ''g'' ''s''))))) =
     [Put \<lparr>LogEvents = [\<lparr>Message = ''a\<newline>'', Timestamp = 0\<rparr>, \<lparr>Message = ''b\<newline>'', Timestamp = 1\<rparr>,
                        \<lparr>Message = ''c'', Timestamp = 2\<rparr>],
          LogGroupName = ''g'', LogStreamName = ''s'', SequenceToken = None\<rparr>]"
  using three_lines_flushed_with_newlines [of stub_accepting "''g''" "''s''"]
  by (simp add: Flush_def drain_def flush_def putLogEvents_def Write_def buffer_def buffer_loop.simps ReadBytes_def add_line_def add_def go_quot_def NewWriter_def stub_accepting_def)

theorem three_lines_stripped_counterexample:
  "map (\<lambda>c. case c of Put i \<Rightarrow> map Message (LogEvents i) | Describe d \<Rightarrow> [])
     (trace (Flush stub_accepting (snd (snd (Write stub_accepting ''a\<newline>b\<newline>c'' (NewWriter ''g'' ''s''))))))
   = [[''a\<newline>'', ''b\<newline>'', ''c'']]
   \<and> [[''a\<newline>'', ''b\<newline>'', ''c'']] \<noteq> [[''a'', ''b'', ''c'']]"
  by (simp add: Flush_def drain_def flush_def putLogEvents_def Write_def buffer_def buffer_loop.simps ReadBytes_def add_line_def add_def go_quot_def NewWriter_def stub_accepting_def)

text \<open>
  Claim C8, as the code has it. \<open>buffer\<close> does not join the end of one write with the start of
  the next. When every piece but the last is empty or ends with a newline, writing the pieces
  one after the other leaves the same events in the buffer as writing all the bytes at once,
  and the following flush makes the same calls; the \<open>k\<close>-th reading of \<open>now\<close> is the same in
  both runs. When the input is cut in two pieces that are not empty and the first does not
  end with a newline, the line that is cut gives two events, one for its part in each piece,
  where the single write gives one event for it; the other messages are the same.
\<close>

theorem writes_split_at_line_ends:
  assumes "\<not> closed w" "err w = None"
  shows "((\<forall>c \<in> set (butlast chunks). c = [] \<or> last c = CHR 0x0A) \<longrightarrow>
            events (run_ops E (map OpWrite chunks) w) = events (snd (snd (Write E (concat chunks) w)))
          \<and> trace (Flush E (run_ops E (map OpWrite chunks) w))
              = trace (Flush E (snd (snd (Write E (concat chunks) w)))))
       \<and> (xs \<noteq> [] \<and> last xs \<noteq> CHR 0x0A \<and> ys \<noteq> [] \<longrightarrow>
            (\<exists>before l1 l2 after.
                l1 \<noteq> [] \<and> l2 \<noteq> [] \<and> concat before @ l1 = xs \<and> l2 @ concat after = ys
              \<and> map Message (events (run_ops E [OpWrite xs, OpWrite ys] w))
                  = map Message (events w) @ before @ [l1, l2] @ after
              \<and> map Message (events (snd (snd (Write E (xs @ ys) w))))
                  = map Message (events w) @ before @ [l1 @ l2] @ after))"
proof (intro conjI impI)
  assume "\<forall>c \<in> set (butlast chunks). c = [] \<or> last c = CHR 0x0A"
  from writes_concat [OF assms this, of E]
  show "events (run_ops E (map OpWrite chunks) w) = events (snd (snd (Write E (concat chunks) w)))"
    and "trace (Flush E (run_ops E (map OpWrite chunks) w))
              = trace (Flush E (snd (snd (Write E (concat chunks) w))))"
    by simp_all
next
  assume "xs \<noteq> [] \<and> last xs \<noteq> CHR 0x0A \<and> ys \<noteq> []"
  then show "\<exists>before l1 l2 after.
                l1 \<noteq> [] \<and> l2 \<noteq> [] \<and> concat before @ l1 = xs \<and> l2 @ concat after = ys
              \<and> map Message (events (run_ops E [OpWrite xs, OpWrite ys] w))
                  = map Message (events w) @ before @ [l1, l2] @ after
              \<and> map Message (events (snd (snd (Write E (xs @ ys) w))))
                  = map Message (events w) @ before @ [l1 @ l2] @ after"
    using split_inside_line [OF assms, of xs ys E] by blast
qed

theorem writes_split_at_line_ends_witness:
  "\<not> closed (NewWriter ''g'' ''s'') \<and> err (NewWriter ''g'' ''s'') = None
   \<and> butlast [''a\<newline>'', ''b\<newline>c\<newline>'', ''d''] = [''a\<newline>'', ''b\<newline>c\<newline>'']
   \<and> last ''a\<newline>'' = CHR 0x0A \<and> last ''b\<newline>c\<newline>'' = CHR 0x0A
   \<and> map Message (events (run_ops stub_accepting (map OpWrite [''a\<newline>'', ''b\<newline>c\<newline>'', ''d'']) (NewWriter ''g'' ''s'')))
       = [''a\<newline>'', ''b\<newline>'', ''c\<newline>'', ''d'']
   \<and> events (run_ops stub_accepting (map OpWrite [''a\<newline>'', ''b\<newline>c\<newline>'', ''d'']) (NewWriter ''g'' ''s''))
       = events (snd (snd (Write stub_accepting ''a\<newline>b\<newline>c\<newline>d'' (NewWriter ''g'' ''s''))))
   \<and> ''x\<newline>ab'' \<noteq> [] \<and> last ''x\<newline>ab'' \<noteq> CHR 0x0A \<and> ''cd\<newline>y'' \<noteq> []
   \<and> map Message (events (run_ops stub_accepting [OpWrite ''x\<newline>ab'', OpWrite ''cd\<newline>y''] (NewWriter ''g'' ''s'')))
       = [''x\<newline>''] @ [''ab'', ''cd\<newline>''] @ [''y'']
   \<and> map Message (events (snd (snd (Write stub_accepting (''x\<newline>ab'' @ ''cd\<newline>y'') (NewWriter ''g'' ''s''))))) 
       = [''x\<newline>''] @ [''ab'' @ ''cd\<newline>''] @ [''y'']"
  using writes_split_at_line_ends [where w = "NewWriter ''g'' ''s''"
      and chunks = "[''a\<newline>'', ''b\<newline>c\<newline>'', ''d'']" and E = stub_accepting
      and xs = "''x\<newline>ab''" and ys = "''cd\<newline>y''"]
  by (simp add: apply_op_def Write_def buffer_def buffer_loop.simps ReadBytes_def add_line_def add_def go_quot_def NewWriter_def stub_accepting_def)

theorem writes_split_inside_line_counterexample:
  "mset (events (run_ops stub_accepting (map OpWrite [''a\<newline>b'', ''c'']) (NewWriter ''g'' ''s'')))
   \<noteq> mset (events (snd (snd (Write stub_accepting (concat [''a\<newline>b'', ''c'']) (NewWriter ''g'' ''s'')))))"
proof -
  have "length (events (run_ops stub_accepting (map OpWrite [''a\<newline>b'', ''c'']) (NewWriter ''g'' ''s''))) = 3"
    by (simp add: apply_op_def Write_def buffer_def buffer_loop.simps ReadBytes_def add_line_def add_def NewWriter_def)
  moreover have "length (events (snd (snd (Write stub_accepting (concat [''a\<newline>b'', ''c'']) (NewWriter ''g'' ''s''))))) = 2"
    by (simp add: apply_op_def Write_def buffer_def buffer_loop.simps ReadBytes_def add_line_def add_def NewWriter_def)
  ultimately show ?thesis by (auto dest: arg_cong [where f = size])
qed

text \<open>
  Claim C9, as the code has it. The only reads for which \<open>buffer\<close> adds no event are those of
  zero bytes. The messages added by one call are not empty and, joined, are the input; a
  line that is only its newline is an event whose message is that newline, so \<open>k\<close> newlines
  add \<open>k\<close> events.
\<close>

theorem buffer_keeps_newline_lines:
  "(\<exists>new. events (snd (snd (buffer E b w))) = events w @ new
          \<and> concat (map Message new) = b \<and> [] \<notin> set (map Message new))
   \<and> map Message (events (snd (snd (buffer E (replicate k (CHR 0x0A)) w))))
       = map Message (events w) @ replicate k [CHR 0x0A]"
  using buffer_loop_messages [of E b 0 w] buffer_loop_newlines [of E k 0 w]
  by (simp add: buffer_world)

theorem buffer_keeps_newline_lines_witness:
  "events (snd (snd (buffer stub_accepting ''x\<newline>\<newline>y'' (NewWriter ''g'' ''s''))))
     = [\<lparr>Message = ''x\<newline>'', Timestamp = 0\<rparr>, \<lparr>Message = ''\<newline>'', Timestamp = 1\<rparr>,
        \<lparr>Message = ''y'', Timestamp = 2\<rparr>]
   \<and> map Message (events (snd (snd (buffer stub_accepting (replicate 2 (CHR 0x0A)) (NewWriter ''g'' ''s'')))))
       = [''\<newline>'', ''\<newline>'']"
  using buffer_keeps_newline_lines [of stub_accepting "''x\<newline>\<newline>y''" "NewWriter ''g'' ''s''" 2]
  by (simp add: buffer_def buffer_loop.simps ReadBytes_def add_line_def add_def go_quot_def NewWriter_def stub_accepting_def numeral_2_eq_2)

theorem empty_line_counterexample:
  "events (snd (snd (Write stub_accepting ''\<newline>'' (NewWriter ''g'' ''s''))))
     = [\<lparr>Message = ''\<newline>'', Timestamp = 0\<rparr>]
   \<and> map Message (events (snd (snd (Write stub_accepting ''\<newline>\<newline>'' (NewWriter ''g'' ''s'')))))
     = [''\<newline>'', ''\<newline>'']"
  by (simp add: Write_def buffer_def buffer_loop.simps ReadBytes_def add_line_def add_def go_quot_def NewWriter_def stub_accepting_def)

section \<open>Claims about flushing\<close>

text \<open>
  Claim C1. When the first call of a flush fails with an \<open>InvalidSequenceTokenException\<close> whose
  message ends with the token \<open>T\<close>, the flush makes exactly one more call, for the same events
  and with \<open>T\<close> as its sequence token. When that call succeeds the writer holds the token of
  its response, and the stored error is as before; when it fails its error is stored, the
  token is as before, and no third call is made.
\<close>

theorem stale_token_retried_once:
  assumes "PutLogEvents E (trace w)
             \<lparr>LogEvents = evs, LogGroupName = group w, LogStreamName = stream w,
              SequenceToken = sequenceToken w\<rparr>
           = Inl (AwsError invalidSequenceTokenCode (pre @ CHR '' '' # T))"
    and "CHR '' '' \<notin> set T"
  shows "trace (flush E evs w) =
           trace w @ [Put \<lparr>LogEvents = evs, LogGroupName = group w, LogStreamName = stream w,
                            SequenceToken = sequenceToken w\<rparr>,
                      Put \<lparr>LogEvents = evs, LogGroupName = group w, LogStreamName = stream w,
                            SequenceToken = Some T\<rparr>]
       \<and> (case PutLogEvents E
                 (trace w @ [Put \<lparr>LogEvents = evs, LogGroupName = group w, LogStreamName = stream w,
                                   SequenceToken = sequenceToken w\<rparr>])
                 \<lparr>LogEvents = evs, LogGroupName = group w, LogStreamName = stream w,
                  SequenceToken = Some T\<rparr> of
            Inr resp \<Rightarrow> sequenceToken (flush E evs w) = NextSequenceToken resp
                        \<and> err (flush E evs w) = err w
          | Inl e \<Rightarrow> err (flush E evs w) = Some e
                     \<and> sequenceToken (flush E evs w) = sequenceToken w)"
proof -
  have t: "T = Split (pre @ CHR '' '' # T) (CHR '' '') ! (length (Split (pre @ CHR '' '' # T) (CHR '' '')) - 1)"
    using Split_token [OF assms(2), of pre] by (rule sym)
  note st = flush_stale [OF assms(1) t]
  show ?thesis
    using st(1) st(2) st(3) by (simp split: sum.splits)
qed

theorem stale_token_retried_once_witness:
  "PutLogEvents stub_stale_once (trace (NewWriter ''g'' ''s''))
     \<lparr>LogEvents = [\<lparr>Message = ''m'', Timestamp = 0\<rparr>], LogGroupName = group (NewWriter ''g'' ''s''),
      LogStreamName = stream (NewWriter ''g'' ''s''), SequenceToken = sequenceToken (NewWriter ''g'' ''s'')\<rparr>
   = Inl (AwsError invalidSequenceTokenCode
        (''The given sequenceToken is invalid. The next expected sequenceToken is:'' @ CHR '' '' # ''T42''))
   \<and> CHR '' '' \<notin> set ''T42''
   \<and> trace (flush stub_stale_once [\<lparr>Message = ''m'', Timestamp = 0\<rparr>] (NewWriter ''g'' ''s'')) =
       [Put \<lparr>LogEvents = [\<lparr>Message = ''m'', Timestamp = 0\<rparr>], LogGroupName = ''g'', LogStreamName = ''s'',
             SequenceToken = None\<rparr>,
        Put \<lparr>LogEvents = [\<lparr>Message = ''m'', Timestamp = 0\<rparr>], LogGroupName = ''g'', LogStreamName = ''s'',
             SequenceToken = Some ''T42''\<rparr>]
   \<and> sequenceToken (flush stub_stale_once [\<lparr>Message = ''m'', Timestamp = 0\<rparr>] (NewWriter ''g'' ''s'')) = Some ''T43''
   \<and> err (flush stub_stale_once [\<lparr>Message = ''m'', Timestamp = 0\<rparr>] (NewWriter ''g'' ''s'')) = None"
  using stale_token_retried_once [of stub_stale_once "NewWriter ''g'' ''s''" "[\<lparr>Message = ''m'', Timestamp = 0\<rparr>]"
      "''The given sequenceToken is invalid. The next expected sequenceToken is:''" "''T42''"]
  by (simp add: stub_stale_once_def NewWriter_def)

text \<open>
  Claim C2, as the code has it. When the first call of a flush fails with a
  \<open>DataAlreadyAcceptedException\<close> whose message ends with the token \<open>T\<close>, no other call is made,
  no error is stored, and the writer holds \<open>T\<close>. \<open>flush\<close> looks for the code in the error of the
  first call only: in the last run below the retry after a stale token gets that answer, and
  the error is stored and its token is not taken.
\<close>

theorem already_accepted_is_success:
  assumes "PutLogEvents E (trace w)
             \<lparr>LogEvents = evs, LogGroupName = group w, LogStreamName = stream w,
              SequenceToken = sequenceToken w\<rparr>
           = Inl (AwsError dataAlreadyAcceptedCode (pre @ CHR '' '' # T))"
    and "CHR '' '' \<notin> set T"
  shows "trace (flush E evs w) =
           trace w @ [Put \<lparr>LogEvents = evs, LogGroupName = group w, LogStreamName = stream w,
                            SequenceToken = sequenceToken w\<rparr>]
       \<and> err (flush E evs w) = err w
       \<and> sequenceToken (flush E evs w) = Some T"
  using flush_already [OF assms(1)] Split_token [OF assms(2), of pre] by simp

theorem already_accepted_is_success_witness:
  "PutLogEvents stub_already_accepted (trace (NewWriter ''g'' ''s''))
     \<lparr>LogEvents = [\<lparr>Message = ''m'', Timestamp = 0\<rparr>], LogGroupName = group (NewWriter ''g'' ''s''),
      LogStreamName = stream (NewWriter ''g'' ''s''), SequenceToken = sequenceToken (NewWriter ''g'' ''s'')\<rparr>
   = Inl (AwsError dataAlreadyAcceptedCode
        (''The given batch of log events has already been accepted. The next batch can be sent with sequenceToken:'' @ CHR '' '' # ''T7''))
   \<and> CHR '' '' \<notin> set ''T7''
   \<and> trace (flush stub_already_accepted [\<lparr>Message = ''m'', Timestamp = 0\<rparr>] (NewWriter ''g'' ''s'')) =
       [Put \<lparr>LogEvents = [\<lparr>Message = ''m'', Timestamp = 0\<rparr>], LogGroupName = ''g'', LogStreamName = ''s'',
             SequenceToken = None\<rparr>]
   \<and> err (flush stub_already_accepted [\<lparr>Message = ''m'', Timestamp = 0\<rparr>] (NewWriter ''g'' ''s'')) = None
   \<and> sequenceToken (flush stub_already_accepted [\<lparr>Message = ''m'', Timestamp = 0\<rparr>] (NewWriter ''g'' ''s'')) = Some ''T7''"
  using already_accepted_is_success [of stub_already_accepted "NewWriter ''g'' ''s''" "[\<lparr>Message = ''m'', Timestamp = 0\<rparr>]"
      "''The given batch of log events has already been accepted. The next batch can be sent with sequenceToken:''" "''T7''"]
  by (simp add: stub_already_accepted_def NewWriter_def)

theorem retry_already_accepted_counterexample:
  "trace (flush stub_stale_then_accepted [\<lparr>Message = ''m'', Timestamp = 0\<rparr>] (NewWriter ''g'' ''s'')) =
       [Put \<lparr>LogEvents = [\<lparr>Message = ''m'', Timestamp = 0\<rparr>], LogGroupName = ''g'', LogStreamName = ''s'',
             SequenceToken = None\<rparr>,
        Put \<lparr>LogEvents = [\<lparr>Message = ''m'', Timestamp = 0\<rparr>], LogGroupName = ''g'', LogStreamName = ''s'',
             SequenceToken = Some ''T42''\<rparr>]
   \<and> PutLogEvents stub_stale_then_accepted
         [Put \<lparr>LogEvents = [\<lparr>Message = ''m'', Timestamp = 0\<rparr>], LogGroupName = ''g'', LogStreamName = ''s'',
               SequenceToken = None\<rparr>]
         \<lparr>LogEvents = [\<lparr>Message = ''m'', Timestamp = 0\<rparr>], LogGroupName = ''g'', LogStreamName = ''s'',
          SequenceToken = Some ''T42''\<rparr>
       = Inl (AwsError dataAlreadyAcceptedCode
           ''The given batch of log events has already been accepted. The next batch can be sent with sequenceToken: T7'')
   \<and> err (flush stub_stale_then_accepted [\<lparr>Message = ''m'', Timestamp = 0\<rparr>] (NewWriter ''g'' ''s'')) =
       Some (AwsError dataAlreadyAcceptedCode
           ''The given batch of log events has already been accepted. The next batch can be sent with sequenceToken: T7'')
   \<and> sequenceToken (flush stub_stale_then_accepted [\<lparr>Message = ''m'', Timestamp = 0\<rparr>] (NewWriter ''g'' ''s'')) = None"
  by (simp add: flush_def putLogEvents_def Let_def Split_def NewWriter_def stub_stale_then_accepted_def
      dataAlreadyAcceptedCode_def invalidSequenceTokenCode_def)

text \<open>
  Claim C3, as the code has it. A flush of a non-empty buffer stores an error in two cases:
  its first call fails with an error that is not one of the two conflicts, or its first call
  fails as a stale token and the retry fails, with any error. The error stays stored through
  every later run of writes, flushes and closes made one after the other, and none of them
  reaches the client. A later write returns the stored error with zero bytes and leaves the
  writer as it is, unless the writer has been closed: then it returns \<open>io.ErrClosedPipe\<close>,
  because \<open>Write\<close> looks at \<open>closed\<close> first. \<open>Flush\<close> has no result to carry the error.
\<close>

theorem failure_is_sticky:
  assumes "events w \<noteq> []"
    and "(PutLogEvents E (trace w)
            \<lparr>LogEvents = events w, LogGroupName = group w, LogStreamName = stream w,
             SequenceToken = sequenceToken w\<rparr> = Inl e
          \<and> \<not> conflict e)
       \<or> (\<exists>msg. PutLogEvents E (trace w)
                   \<lparr>LogEvents = events w, LogGroupName = group w, LogStreamName = stream w,
                    SequenceToken = sequenceToken w\<rparr> = Inl (AwsError invalidSequenceTokenCode msg)
                 \<and> PutLogEvents E
                     (trace w @ [Put \<lparr>LogEvents = events w, LogGroupName = group w,
                                       LogStreamName = stream w, SequenceToken = sequenceToken w\<rparr>])
                     \<lparr>LogEvents = events w, LogGroupName = group w, LogStreamName = stream w,
                      SequenceToken = Some (last (Split msg (CHR '' '')))\<rparr> = Inl e)"
  shows "err (Flush E w) = Some e
       \<and> err (run_ops E ops (Flush E w)) = Some e
       \<and> trace (run_ops E ops (Flush E w)) = trace (Flush E w)
       \<and> Write E b (run_ops E ops (Flush E w)) =
           (0, Some (if closed (run_ops E ops (Flush E w)) then ErrClosedPipe else e),
            run_ops E ops (Flush E w))"
proof -
  have f: "err (Flush E w) = Some e" "events (Flush E w) = []"
    using assms(2) Flush_other(1,2) [OF assms(1)] Flush_retry_fails [OF assms(1)] by blast+
  from run_ops_failed [OF f, of E ops]
  have r: "err (run_ops E ops (Flush E w)) = Some e"
    "trace (run_ops E ops (Flush E w)) = trace (Flush E w)" by simp_all
  from f(1) r Write_failed [OF r(1), of E b] show ?thesis by simp
qed

theorem failure_is_sticky_witness:
  "events (snd (snd (Write stub_failing ''a\<newline>'' (NewWriter ''g'' ''s'')))) \<noteq> []
   \<and> PutLogEvents stub_failing (trace (snd (snd (Write stub_failing ''a\<newline>'' (NewWriter ''g'' ''s'')))))
         \<lparr>LogEvents = events (snd (snd (Write stub_failing ''a\<newline>'' (NewWriter ''g'' ''s'')))),
          LogGroupName = group (snd (snd (Write stub_failing ''a\<newline>'' (NewWriter ''g'' ''s'')))),
          LogStreamName = stream (snd (snd (Write stub_failing ''a\<newline>'' (NewWriter ''g'' ''s'')))),
          SequenceToken = sequenceToken (snd (snd (Write stub_failing ''a\<newline>'' (NewWriter ''g'' ''s''))))\<rparr>
       = Inl (OtherError ''connection reset'')
   \<and> \<not> conflict (OtherError ''connection reset'')
   \<and> err (Flush stub_failing (snd (snd (Write stub_failing ''a\<newline>'' (NewWriter ''g'' ''s''))))) = Some (OtherError ''connection reset'')
   \<and> err (run_ops stub_failing [OpWrite ''b'', OpFlush, OpWrite ''c'']
        (Flush stub_failing (snd (snd (Write stub_failing ''a\<newline>'' (NewWriter ''g'' ''s'')))))) = Some (OtherError ''connection reset'')
   \<and> length (trace (run_ops stub_failing [OpWrite ''b'', OpFlush, OpWrite ''c'']
        (Flush stub_failing (snd (snd (Write stub_failing ''a\<newline>'' (NewWriter ''g'' ''s''))))))) = 1
   \<and> fst (snd (Write stub_failing ''d'' (run_ops stub_failing [OpWrite ''b'', OpFlush, OpWrite ''c'']
        (Flush stub_failing (snd (snd (Write stub_failing ''a\<newline>'' (NewWriter ''g'' ''s''))))))))
       = Some (OtherError ''connection reset'')
   \<and> PutLogEvents stub_stale_then_failing []
         \<lparr>LogEvents = [\<lparr>Message = ''a\<newline>'', Timestamp = 0\<rparr>], LogGroupName = ''g'', LogStreamName = ''s'',
          SequenceToken = None\<rparr>
       = Inl (AwsError invalidSequenceTokenCode
           ''The given sequenceToken is invalid. The next expected sequenceToken is: T42'')
   \<and> last (Split ''The given sequenceToken is invalid. The next expected sequenceToken is: T42'' (CHR '' '')) = ''T42''
   \<and> PutLogEvents stub_stale_then_failing
         [Put \<lparr>LogEvents = [\<lparr>Message = ''a\<newline>'', Timestamp = 0\<rparr>], LogGroupName = ''g'', LogStreamName = ''s'',
               SequenceToken = None\<rparr>]
         \<lparr>LogEvents = [\<lparr>Message = ''a\<newline>'', Timestamp = 0\<rparr>], LogGroupName = ''g'', LogStreamName = ''s'',
          SequenceToken = Some ''T42''\<rparr>
       = Inl (OtherError ''connection reset'')
   \<and> err (Flush stub_stale_then_failing (snd (snd (Write stub_stale_then_failing ''a\<newline>'' (NewWriter ''g'' ''s'')))))
       = Some (OtherError ''connection reset'')
   \<and> length (trace (run_ops stub_stale_then_failing [OpWrite ''b'', OpFlush, OpClose]
        (Flush stub_stale_then_failing (snd (snd (Write stub_stale_then_failing ''a\<newline>'' (NewWriter ''g'' ''s''))))))) = 2
   \<and> err (run_ops stub_stale_then_failing [OpWrite ''b'', OpFlush, OpClose]
        (Flush stub_stale_then_failing (snd (snd (Write stub_stale_then_failing ''a\<newline>'' (NewWriter ''g'' ''s''))))))
       = Some (OtherError ''connection reset'')"
  using failure_is_sticky [of "snd (snd (Write stub_failing ''a\<newline>'' (NewWriter ''g'' ''s'')))" stub_failing
      "OtherError ''connection reset''" "[OpWrite ''b'', OpFlush, OpWrite ''c'']" "''d''"]
    failure_is_sticky [of "snd (snd (Write stub_stale_then_failing ''a\<newline>'' (NewWriter ''g'' ''s'')))" stub_stale_then_failing
      "OtherError ''connection reset''" "[OpWrite ''b'', OpFlush, OpClose]" "''d''"]
  by (simp add: conflict_def apply_op_def Close_def Flush_def drain_def flush_def putLogEvents_def Write_def buffer_def
      buffer_loop.simps ReadBytes_def add_line_def add_def go_quot_def NewWriter_def stub_failing_def stub_stale_then_failing_def
      Split_def Let_def dataAlreadyAcceptedCode_def invalidSequenceTokenCode_def)

theorem closed_write_counterexample:
  "err (Flush stub_failing (snd (snd (Write stub_failing ''a\<newline>'' (NewWriter ''g'' ''s''))))) = Some (OtherError ''connection reset'')
   \<and> fst (snd (Write stub_failing ''b''
        (Close stub_failing (Flush stub_failing (snd (snd (Write stub_failing ''a\<newline>'' (NewWriter ''g'' ''s''))))))))
       = Some ErrClosedPipe
   \<and> Some ErrClosedPipe \<noteq> Some (OtherError ''connection reset'')"
  by (simp add: conflict_def Close_def Flush_def drain_def flush_def putLogEvents_def Write_def buffer_def
      buffer_loop.simps ReadBytes_def add_line_def add_def NewWriter_def stub_failing_def)

text \<open>
  Claim C4, as the code has it. The four limits are constants of the package and nothing
  reads them. A flush of a non-empty buffer sends the whole drained buffer in its first call,
  whatever the number and the size of the events, and the only other call it can make is the
  retry of the same batch.
\<close>

theorem Flush_sends_whole_buffer:
  "events w \<noteq> [] \<Longrightarrow>
   (\<exists>rest. trace (Flush E w) =
       trace w @ Put \<lparr>LogEvents = events w, LogGroupName = group w, LogStreamName = stream w,
                       SequenceToken = sequenceToken w\<rparr> # rest
     \<and> (rest = [] \<or> (\<exists>t. rest = [Put \<lparr>LogEvents = events w, LogGroupName = group w,
                                         LogStreamName = stream w, SequenceToken = Some t\<rparr>])))
   \<and> events (Flush E w) = []
   \<and> perEventBytes = 26 \<and> maximumBytesPerPut = 1048576 \<and> maximumLogEventsPerPut = 10000
   \<and> maximumBytesPerEvent = 262118"
  using Flush_first_call [of w E]
  by (simp add: Flush_frame perEventBytes_def maximumBytesPerPut_def maximumLogEventsPerPut_def
      maximumBytesPerEvent_def)

theorem Flush_sends_whole_buffer_witness:
  "events ((NewWriter ''g'' ''s'')\<lparr>events := [\<lparr>Message = ''a\<newline>'', Timestamp = 0\<rparr>, \<lparr>Message = ''b'', Timestamp = 1\<rparr>]\<rparr>) \<noteq> []
   \<and> trace (Flush stub_accepting ((NewWriter ''g'' ''s'')\<lparr>events := [\<lparr>Message = ''a\<newline>'', Timestamp = 0\<rparr>, \<lparr>Message = ''b'', Timestamp = 1\<rparr>]\<rparr>))
       = [Put \<lparr>LogEvents = [\<lparr>Message = ''a\<newline>'', Timestamp = 0\<rparr>, \<lparr>Message = ''b'', Timestamp = 1\<rparr>],
               LogGroupName = ''g'', LogStreamName = ''s'', SequenceToken = None\<rparr>]
   \<and> events (Flush stub_accepting ((NewWriter ''g'' ''s'')\<lparr>events := [\<lparr>Message = ''a\<newline>'', Timestamp = 0\<rparr>, \<lparr>Message = ''b'', Timestamp = 1\<rparr>]\<rparr>)) = []"
  using Flush_sends_whole_buffer [of "(NewWriter ''g'' ''s'')\<lparr>events := [\<lparr>Message = ''a\<newline>'', Timestamp = 0\<rparr>, \<lparr>Message = ''b'', Timestamp = 1\<rparr>]\<rparr>" stub_accepting]
  by (simp add: Flush_def drain_def flush_def putLogEvents_def NewWriter_def stub_accepting_def)

theorem oversized_batch_counterexample:
  "\<exists>i. trace (Flush stub_accepting
           (snd (snd (Write stub_accepting (concat (replicate 10001 ''x\<newline>'')) (NewWriter ''g'' ''s'')))))
        = [Put i]
      \<and> length (LogEvents i) = 10001 \<and> maximumLogEventsPerPut < length (LogEvents i)"
proof -
  let ?w = "snd (snd (Write stub_accepting (concat (replicate 10001 ''x\<newline>'')) (NewWriter ''g'' ''s'')))"
  let ?i = "\<lparr>LogEvents = events ?w, LogGroupName = group (?w\<lparr>events := []\<rparr>), LogStreamName = stream (?w\<lparr>events := []\<rparr>),
             SequenceToken = sequenceToken (?w\<lparr>events := []\<rparr>)\<rparr>"
  have w: "?w = snd (buffer_loop stub_accepting (concat (replicate 10001 ''x\<newline>'')) 0 (NewWriter ''g'' ''s''))"
    by (rule Write_open) (simp_all add: NewWriter_def)
  have len: "length (events ?w) = 10001"
    unfolding w using buffer_loop_many_lines [of "''x''" stub_accepting 10001 0 "NewWriter ''g'' ''s''"]
    by (simp add: NewWriter_def)
  then have ne: "events ?w \<noteq> []" by auto
  have tr: "trace ?w = []" by (simp add: Write_frame) (simp add: NewWriter_def)
  have "PutLogEvents stub_accepting (trace (?w\<lparr>events := []\<rparr>)) ?i
        = Inr \<lparr>NextSequenceToken = Some ''T1'', RejectedLogEventsInfo = False\<rparr>"
    by (simp add: stub_accepting_def)
  from flush_ok(1) [OF this] have "trace (Flush stub_accepting ?w) = [Put ?i]"
    using ne tr by (simp add: Flush_nonempty)
  moreover have "length (LogEvents ?i) = 10001" using len by simp
  ultimately show ?thesis by (auto simp: maximumLogEventsPerPut_def)
qed

text \<open>
  Claim C6, as the code has it. In the writer that has \<open>getSequenceToken\<close>, a flush that finds
  no token held first describes the streams and then puts the events; when the lookup fails
  the events are put with a nil token and the result of the flush is that of the put alone.
  The writer with the conflict handling makes no lookup: its first call is the put, with the
  nil token.
\<close>

theorem flush_v1_looks_up_token:
  assumes "sequenceToken w = None"
  shows "(\<exists>tok. trace (snd (flush_v1 E evs w)) =
           trace w @ [Describe \<lparr>DescribeGroupName = group w, LogStreamNamePrefix = stream w\<rparr>,
                      Put \<lparr>LogEvents = evs, LogGroupName = group w, LogStreamName = stream w,
                            SequenceToken = tok\<rparr>]
       \<and> (case DescribeLogStreams E (trace w)
                 \<lparr>DescribeGroupName = group w, LogStreamNamePrefix = stream w\<rparr> of
            Inl e \<Rightarrow>
              tok = None
              \<and> fst (flush_v1 E evs w) =
                  (case PutLogEvents E
                          (trace w @ [Describe \<lparr>DescribeGroupName = group w, LogStreamNamePrefix = stream w\<rparr>])
                          \<lparr>LogEvents = evs, LogGroupName = group w, LogStreamName = stream w,
                           SequenceToken = None\<rparr> of
                     Inl e' \<Rightarrow> Some e'
                   | Inr resp \<Rightarrow>
                       if RejectedLogEventsInfo resp then Some RejectedLogEventsInfoError else None)
          | Inr streams \<Rightarrow>
              tok = (case find (\<lambda>s. StreamName s = stream w) streams of
                       None \<Rightarrow> None
                     | Some s \<Rightarrow> UploadSequenceToken s)))
     \<and> (\<exists>rest. trace (flush E evs w) =
           trace w @ Put \<lparr>LogEvents = evs, LogGroupName = group w, LogStreamName = stream w,
                           SequenceToken = None\<rparr> # rest
       \<and> (rest = [] \<or> (\<exists>t. rest = [Put \<lparr>LogEvents = evs, LogGroupName = group w,
                                           LogStreamName = stream w, SequenceToken = Some t\<rparr>])))"
    (is "?lookup \<and> ?direct")
proof
  let ?d = "\<lparr>DescribeGroupName = group w, LogStreamNamePrefix = stream w\<rparr>"
  let ?tok = "fst (getSequenceToken E w)"
  have tr: "trace (snd (flush_v1 E evs w)) =
     trace w @ [Describe ?d, Put \<lparr>LogEvents = evs, LogGroupName = group w, LogStreamName = stream w, SequenceToken = ?tok\<rparr>]"
    by (rule flush_v1_trace [OF assms])
  note tok = getSequenceToken_None(2) [OF assms, of E]
  obtain t w1 where g: "getSequenceToken E w = (t, w1)" by (cases "getSequenceToken E w")
  have w1: "w1 = w\<lparr>trace := trace w @ [Describe ?d]\<rparr>"
    using getSequenceToken_None(1) [OF assms, of E] g by simp
  have res: "DescribeLogStreams E (trace w) ?d = Inl e \<Longrightarrow>
      fst (flush_v1 E evs w) =
        (case PutLogEvents E (trace w @ [Describe ?d])
                \<lparr>LogEvents = evs, LogGroupName = group w, LogStreamName = stream w, SequenceToken = None\<rparr> of
           Inl e' \<Rightarrow> Some e'
         | Inr resp \<Rightarrow> if RejectedLogEventsInfo resp then Some RejectedLogEventsInfoError else None)" for e
  proof -
    assume d: "DescribeLogStreams E (trace w) ?d = Inl e"
    with tok g have "t = None" by simp
    then show ?thesis unfolding flush_v1_def g by (simp add: w1 Let_def split: sum.splits)
  qed
  show ?lookup
  proof (cases "DescribeLogStreams E (trace w) ?d")
    case (Inl e)
    with tok have "?tok = None" by simp
    with tr res [OF Inl] Inl show ?thesis by simp
  next
    case (Inr streams)
    with tok tr show ?thesis by simp
  qed
next
  obtain rest e' t' where
    "flush E evs w =
       w\<lparr>trace := trace w @ Put \<lparr>LogEvents = evs, LogGroupName = group w, LogStreamName = stream w,
                                   SequenceToken = sequenceToken w\<rparr> # rest,
         err := e', sequenceToken := t'\<rparr>"
    and "rest = [] \<or> (\<exists>t. rest = [Put \<lparr>LogEvents = evs, LogGroupName = group w,
                                       LogStreamName = stream w, SequenceToken = Some t\<rparr>])"
    using flush_shape [of E evs w] by blast
  with assms show ?direct by simp
qed

theorem flush_v1_looks_up_token_witness:
  "sequenceToken (NewWriter ''g'' ''s'') = None
   \<and> trace (snd (flush_v1 stub_accepting [\<lparr>Message = ''m'', Timestamp = 0\<rparr>] (NewWriter ''g'' ''s''))) =
       [Describe \<lparr>DescribeGroupName = ''g'', LogStreamNamePrefix = ''s''\<rparr>,
        Put \<lparr>LogEvents = [\<lparr>Message = ''m'', Timestamp = 0\<rparr>], LogGroupName = ''g'', LogStreamName = ''s'',
             SequenceToken = None\<rparr>]
   \<and> fst (flush_v1 stub_accepting [\<lparr>Message = ''m'', Timestamp = 0\<rparr>] (NewWriter ''g'' ''s'')) = None"
  using flush_v1_looks_up_token [of "NewWriter ''g'' ''s''" stub_accepting "[\<lparr>Message = ''m'', Timestamp = 0\<rparr>]"]
  by (simp add: NewWriter_def stub_accepting_def)

theorem flush_without_lookup_counterexample:
  "sequenceToken (NewWriter ''g'' ''s'') = None
   \<and> trace (flush stub_accepting [\<lparr>Message = ''m'', Timestamp = 0\<rparr>] (NewWriter ''g'' ''s'')) =
       [Put \<lparr>LogEvents = [\<lparr>Message = ''m'', Timestamp = 0\<rparr>], LogGroupName = ''g'', LogStreamName = ''s'',
             SequenceToken = None\<rparr>]"
  by (simp add: flush_def putLogEvents_def NewWriter_def stub_accepting_def)

text \<open>
  Claim C7, as the code has it. In the writer whose \<open>Flush\<close> returns nothing, the loop returns
  exactly when it finds the writer closed, whatever the client answers: a flush that fails
  leaves the loop waiting for the next tick, and the error shows in \<open>err\<close> only. The loop of
  the writer whose \<open>Flush\<close> returns an error is different: in the last run below it returns
  the error of a failed flush while the writer is open.
\<close>

theorem start_returns_only_when_closed:
  "fst (start E ticks w) = (if closed w \<or> OpClose \<in> set (concat ticks) then Exited None else Waiting)
   \<and> closed (snd (start E ticks w)) = (closed w \<or> OpClose \<in> set (concat ticks))"
proof (induction ticks arbitrary: w)
  case Nil
  show ?case by simp
next
  case (Cons ops ticks)
  show ?case
  proof (cases "closed w")
    case True
    then show ?thesis by simp
  next
    case False
    have c: "closed (Flush E (run_ops E ops w)) = (OpClose \<in> set ops)"
      using False by (simp add: Flush_frame run_ops_closed)
    from Cons [of "Flush E (run_ops E ops w)"] False c show ?thesis by auto
  qed
qed

theorem start_returns_only_when_closed_witness:
  "start stub_failing [[OpWrite ''a\<newline>''], [OpWrite ''b\<newline>''], []] (NewWriter ''g'' ''s'')
     = (Waiting, (NewWriter ''g'' ''s'')
          \<lparr>err := Some (OtherError ''connection reset''),
            trace := [Put \<lparr>LogEvents = [\<lparr>Message = ''a\<newline>'', Timestamp = 0\<rparr>], LogGroupName = ''g'',
                           LogStreamName = ''s'', SequenceToken = None\<rparr>],
            nowCalls := 1\<rparr>)
   \<and> fst (start stub_failing [[OpWrite ''a\<newline>''], [OpClose], []] (NewWriter ''g'' ''s'')) = Exited None"
  using start_returns_only_when_closed [of stub_failing "[[OpWrite ''a\<newline>''], [OpWrite ''b\<newline>''], []]" "NewWriter ''g'' ''s''"]
  by (simp add: apply_op_def Close_def Flush_def drain_def flush_def putLogEvents_def Write_def buffer_def
      buffer_loop.simps ReadBytes_def add_line_def add_def go_quot_def NewWriter_def stub_failing_def)

theorem start_v1_returns_on_error_counterexample:
  "fst (start_v1 stub_failing [[OpWrite ''a\<newline>''], []] (NewWriter ''g'' ''s''))
     = Exited (Some (OtherError ''connection reset''))
   \<and> \<not> closed (snd (start_v1 stub_failing [[OpWrite ''a\<newline>''], []] (NewWriter ''g'' ''s'')))"
  by (simp add: apply_op_v1_def Flush_v1_def flush_v1_def getSequenceToken_def drain_def Write_def buffer_def
      buffer_loop.simps ReadBytes_def add_line_def add_def go_quot_def NewWriter_def stub_failing_def Let_def)

end
